theory Spec2Isabelle
  imports Complex_Main
begin

section \<open>LowkeyType: the typing-session engine\<close>

text \<open>
  A shallow embedding of the scoring and session code of \<^verbatim>\<open>LowkeyType.c\<close>:
  \<^verbatim>\<open>calculateAccuracy\<close>, \<^verbatim>\<open>typingTest\<close>, \<^verbatim>\<open>enduranceMode\<close>, \<^verbatim>\<open>rawSpeedMode\<close>
  and \<^verbatim>\<open>processTypingResults\<close>.

  Conventions of the model.
  \<^item> A C \<^verbatim>\<open>int\<close> counter is an \<open>int\<close>; array indices and string lengths are \<open>nat\<close>.
    No counter of the program comes near the 32-bit range (buffers hold 1000 bytes).
  \<^item> A \<^verbatim>\<open>char *\<close> argument is the list of bytes it points to; the string it denotes
    ends before the first NUL byte (\<open>cstring\<close>, \<open>strlen\<close>).
  \<^item> A \<^verbatim>\<open>float\<close> or \<^verbatim>\<open>double\<close> is a value of \<open>cfloat\<close>: an exact real, or one of the
    special values an IEEE division by zero produces. Rounding and the sign of zero
    are not modelled.
  \<^item> \<^verbatim>\<open>getch()\<close> reads from a finite list of pending key codes; a read from the empty
    list is a program that waits for ever, the value \<open>None\<close>.
  \<^item> Printing, colours and screen handling are left out.
\<close>

subsection \<open>Floating-point values\<close>

datatype cfloat = Fin real | PInf | NInf | NaN

fun fl_add :: "cfloat \<Rightarrow> cfloat \<Rightarrow> cfloat" where
  "fl_add (Fin a) (Fin b) = Fin (a + b)"
| "fl_add NaN _ = NaN"
| "fl_add _ NaN = NaN"
| "fl_add PInf NInf = NaN"
| "fl_add NInf PInf = NaN"
| "fl_add PInf _ = PInf"
| "fl_add _ PInf = PInf"
| "fl_add NInf _ = NInf"
| "fl_add _ NInf = NInf"

fun fl_sub :: "cfloat \<Rightarrow> cfloat \<Rightarrow> cfloat" where
  "fl_sub (Fin a) (Fin b) = Fin (a - b)"
| "fl_sub NaN _ = NaN"
| "fl_sub _ NaN = NaN"
| "fl_sub PInf PInf = NaN"
| "fl_sub NInf NInf = NaN"
| "fl_sub PInf _ = PInf"
| "fl_sub _ NInf = PInf"
| "fl_sub NInf _ = NInf"
| "fl_sub _ PInf = NInf"

fun fl_scale :: "real \<Rightarrow> cfloat \<Rightarrow> cfloat" where
  "fl_scale a (Fin b) = Fin (a * b)"
| "fl_scale a NaN = NaN"
| "fl_scale a PInf = (if a = 0 then NaN else if 0 < a then PInf else NInf)"
| "fl_scale a NInf = (if a = 0 then NaN else if 0 < a then NInf else PInf)"

fun fl_mul :: "cfloat \<Rightarrow> cfloat \<Rightarrow> cfloat" where
  "fl_mul (Fin a) y = fl_scale a y"
| "fl_mul x (Fin b) = fl_scale b x"
| "fl_mul NaN _ = NaN"
| "fl_mul _ NaN = NaN"
| "fl_mul PInf PInf = PInf"
| "fl_mul NInf NInf = PInf"
| "fl_mul PInf NInf = NInf"
| "fl_mul NInf PInf = NInf"

fun fl_div :: "cfloat \<Rightarrow> cfloat \<Rightarrow> cfloat" where
  "fl_div (Fin a) (Fin b) =
     (if b \<noteq> 0 then Fin (a / b)
      else if a = 0 then NaN else if 0 < a then PInf else NInf)"
| "fl_div (Fin a) PInf = Fin 0"
| "fl_div (Fin a) NInf = Fin 0"
| "fl_div PInf (Fin b) = (if 0 \<le> b then PInf else NInf)"
| "fl_div NInf (Fin b) = (if 0 \<le> b then NInf else PInf)"
| "fl_div _ _ = NaN"

fun fl_less :: "cfloat \<Rightarrow> cfloat \<Rightarrow> bool" where
  "fl_less (Fin a) (Fin b) = (a < b)"
| "fl_less NaN _ = False"
| "fl_less _ NaN = False"
| "fl_less NInf NInf = False"
| "fl_less NInf _ = True"
| "fl_less PInf _ = False"
| "fl_less _ PInf = True"
| "fl_less _ NInf = False"

fun fl_le :: "cfloat \<Rightarrow> cfloat \<Rightarrow> bool" where
  "fl_le (Fin a) (Fin b) = (a \<le> b)"
| "fl_le NaN _ = False"
| "fl_le _ NaN = False"
| "fl_le NInf _ = True"
| "fl_le _ PInf = True"
| "fl_le PInf _ = False"
| "fl_le _ NInf = False"

definition fl_ge :: "cfloat \<Rightarrow> cfloat \<Rightarrow> bool" where
  "fl_ge x y = fl_le y x"

definition of_cint :: "int \<Rightarrow> cfloat" where
  "of_cint n = Fin (real_of_int n)"

subsection \<open>C strings\<close>

definition NUL :: char where
  "NUL = CHR 0x00"

definition cstring :: "char list \<Rightarrow> char list" where
  "cstring buf = takeWhile (\<lambda>c. c \<noteq> NUL) buf"

definition strlen :: "char list \<Rightarrow> nat" where
  "strlen buf = length (cstring buf)"

subsection \<open>The accuracy scorer\<close>

text \<open>
  The comparison loop of \<^verbatim>\<open>calculateAccuracy\<close>: one step for index \<open>i\<close>, on the pair
  \<open>(correctChars, mistypedChars)\<close>.
\<close>

definition compare_step :: "char list \<Rightarrow> char list \<Rightarrow> nat \<Rightarrow> int \<times> int \<Rightarrow> int \<times> int" where
  "compare_step target typed i cm =
     (case cm of (correctChars, mistypedChars) \<Rightarrow>
        if typed ! i = target ! i then (correctChars + 1, mistypedChars)
        else (correctChars, mistypedChars + 1))"

definition compare_chars :: "char list \<Rightarrow> char list \<Rightarrow> int \<times> int" where
  "compare_chars target typed =
     (let targetLen = strlen target; typedLen = strlen typed;
          minLen = (if targetLen < typedLen then targetLen else typedLen)
      in fold (compare_step target typed) [0..<minLen] (0, 0))"

record scored =
  sc_accuracy :: cfloat
  sc_mistyped :: int
  sc_missed :: int
  sc_extra :: int

definition calculateAccuracy :: "char list \<Rightarrow> char list \<Rightarrow> scored" where
  "calculateAccuracy target typed =
     (let targetLen = strlen target;
          typedLen = strlen typed;
          mistypedChars = snd (compare_chars target typed);
          missedChars = (if typedLen < targetLen then int targetLen - int typedLen else 0);
          extraChars = (if typedLen > targetLen then int typedLen - int targetLen else 0);
          totalErrors = mistypedChars + missedChars + extraChars;
          accuracy = fl_mul (Fin 100) (fl_sub (Fin 1) (fl_div (of_cint totalErrors) (of_cint (int targetLen))));
          accuracy = (if targetLen = 0 then Fin 0 else accuracy);
          accuracy = (if fl_less accuracy (Fin 0) then Fin 0 else accuracy)
      in \<lparr> sc_accuracy = accuracy, sc_mistyped = mistypedChars,
           sc_missed = missedChars, sc_extra = extraChars \<rparr>)"

text \<open>
  The scorer as the specification words it, on the two strings: positions below both
  lengths are correct or mistyped, a shortfall is missed, an excess is extra.
\<close>

definition spec_correct :: "string \<Rightarrow> string \<Rightarrow> nat" where
  "spec_correct target typed =
     length (filter (\<lambda>i. typed ! i = target ! i) [0..<min (length target) (length typed)])"

definition spec_mistyped :: "string \<Rightarrow> string \<Rightarrow> nat" where
  "spec_mistyped target typed =
     length (filter (\<lambda>i. typed ! i \<noteq> target ! i) [0..<min (length target) (length typed)])"

definition spec_missed :: "string \<Rightarrow> string \<Rightarrow> nat" where
  "spec_missed target typed =
     (if length typed < length target then length target - length typed else 0)"

definition spec_extra :: "string \<Rightarrow> string \<Rightarrow> nat" where
  "spec_extra target typed =
     (if length typed > length target then length typed - length target else 0)"

definition spec_accuracy :: "string \<Rightarrow> string \<Rightarrow> real" where
  "spec_accuracy target typed =
     (if length target = 0 then 0
      else max 0 (100 * (1 - real (spec_mistyped target typed + spec_missed target typed
                                    + spec_extra target typed) / real (length target))))"

subsection \<open>Records of the program\<close>

record User =
  name :: string
  bestWPM :: cfloat
  bestAccuracy :: cfloat
  testsCompleted :: int
  enduranceHighScore :: int
  averageAccuracy :: cfloat
  totalCharsTyped :: int
  totalCorrectChars :: int

record TypingResult =
  totalChars :: int
  correctChars :: int
  mistyped :: int
  missed :: int
  extra :: int
  accuracy :: cfloat
  wpm :: cfloat
  timeTaken :: cfloat
  resultText :: string

subsection \<open>The live session loop\<close>

text \<open>The local variables of \<^verbatim>\<open>typingTest\<close> that the loop changes.\<close>

record session =
  typedText :: "char list"
  mistakeFlags :: "bool list"
  pos :: nat
  totalKeystrokes :: int
  incorrectKeystrokes :: int
  testFinished :: bool

definition session_init :: session where
  "session_init =
     \<lparr> typedText = replicate 1000 NUL, mistakeFlags = replicate 1000 False, pos = 0,
       totalKeystrokes = 0, incorrectKeystrokes = 0, testFinished = False \<rparr>"

definition ESC :: char where
  "ESC = CHR 0x1B"

definition is_backspace :: "char \<Rightarrow> bool" where
  "is_backspace ch = (ch = CHR 0x08 \<or> ch = CHR 0x7F)"

text \<open>\<^verbatim>\<open>isprint\<close> of the C locale: the codes 0x20 to 0x7E.\<close>

definition isprint :: "char \<Rightarrow> bool" where
  "isprint ch = (0x20 \<le> (of_char ch :: nat) \<and> (of_char ch :: nat) \<le> 0x7E)"

text \<open>
  The body of the redraw loop \<^verbatim>\<open>for (i = 0; i <= pos; i++)\<close>, which both the backspace
  branch and the printable branch run: its effect on \<open>(incorrectKeystrokes, mistakeFlags)\<close>
  at index \<open>i\<close>.
\<close>

definition render_pos ::
  "char list \<Rightarrow> char list \<Rightarrow> nat \<Rightarrow> int \<times> bool list \<Rightarrow> int \<times> bool list" where
  "render_pos text typed i st =
     (case st of (incorrect, flags) \<Rightarrow>
        if i < strlen text then
          (if typed ! i = text ! i then (incorrect, flags)
           else if \<not> flags ! i then (incorrect + 1, flags[i := True])
           else (incorrect, flags))
        else (incorrect + 1, flags))"

definition render ::
  "char list \<Rightarrow> char list \<Rightarrow> nat \<Rightarrow> int \<times> bool list \<Rightarrow> int \<times> bool list" where
  "render text typed p st = fold (render_pos text typed) [0..<Suc p] st"

text \<open>One pass of the loop body for a key that is not ESC.\<close>

definition key_event :: "char list \<Rightarrow> session \<Rightarrow> char \<Rightarrow> session" where
  "key_event text s ch =
     (if is_backspace ch \<and> pos s > 0 then
        (let p = pos s - 1;
             typed = (typedText s)[p := NUL];
             r = render text typed p (incorrectKeystrokes s, mistakeFlags s)
         in s\<lparr> pos := p, typedText := typed,
                incorrectKeystrokes := fst r, mistakeFlags := snd r \<rparr>)
      else if isprint ch \<and> pos s < 999 then
        (let typed = (typedText s)[pos s := ch, pos s + 1 := NUL];
             r = render text typed (pos s) (incorrectKeystrokes s, mistakeFlags s);
             p = pos s + 1
         in s\<lparr> typedText := typed, totalKeystrokes := totalKeystrokes s + 1,
                incorrectKeystrokes := fst r, mistakeFlags := snd r, pos := p,
                testFinished := (if p \<ge> strlen text then True else testFinished s) \<rparr>)
      else s)"

definition running :: "char list \<Rightarrow> session \<Rightarrow> bool" where
  "running text s = (\<not> testFinished s \<and> pos s < strlen text)"

datatype loop_exit = Waiting | Cancelled "char list" | Completed session "char list"

text \<open>
  The \<^verbatim>\<open>while\<close> loop on the pending keys: it leaves through ESC, through its condition,
  or never when the keys run out first. The keys not read are returned.
\<close>

fun typing_loop :: "char list \<Rightarrow> session \<Rightarrow> char list \<Rightarrow> loop_exit" where
  "typing_loop text s [] = (if running text s then Waiting else Completed s [])"
| "typing_loop text s (ch # keys) =
     (if running text s then
        (if ch = ESC then Cancelled keys
         else typing_loop text (key_event text s ch) keys)
      else Completed s (ch # keys))"

text \<open>
  The states at the head of the loop, in order, while the keys are read: the states a
  session goes through.
\<close>

fun loop_heads :: "char list \<Rightarrow> session \<Rightarrow> char list \<Rightarrow> session list" where
  "loop_heads text s [] = [s]"
| "loop_heads text s (ch # keys) =
     (if running text s \<and> ch \<noteq> ESC then s # loop_heads text (key_event text s ch) keys
      else [s])"

text \<open>
  \<^verbatim>\<open>typingTest\<close>: \<open>result\<close> is what the caller's struct holds at the call, \<open>elapsed\<close> the
  seconds between the two clock readings. The first key only starts the test. The
  value is the returned status, the struct after the call and the keys left.
\<close>

definition finish_result :: "char list \<Rightarrow> TypingResult \<Rightarrow> real \<Rightarrow> session \<Rightarrow> TypingResult" where
  "finish_result text result elapsed s =
     (let correct = totalKeystrokes s - incorrectKeystrokes s
      in result\<lparr> totalChars := totalKeystrokes s,
                  correctChars := correct,
                  accuracy := (if totalKeystrokes s = 0 then Fin 0
                               else fl_div (fl_mul (Fin 100) (of_cint correct))
                                           (of_cint (totalKeystrokes s))),
                  wpm := fl_div (fl_div (Fin (real (pos s))) (Fin 5))
                                (fl_div (Fin elapsed) (Fin 60)),
                  timeTaken := Fin elapsed,
                  resultText := take 999 (cstring text) \<rparr>)"

definition typingTest ::
  "char list \<Rightarrow> TypingResult \<Rightarrow> real \<Rightarrow> char list \<Rightarrow> (int \<times> TypingResult \<times> char list) option" where
  "typingTest text result elapsed keys =
     (case keys of
        [] \<Rightarrow> None
      | anykey # keys' \<Rightarrow>
          (case typing_loop text session_init keys' of
             Waiting \<Rightarrow> None
           | Cancelled rest \<Rightarrow> Some (0, result, rest)
           | Completed s rest \<Rightarrow> Some (1, finish_result text result elapsed s, rest)))"

text \<open>The mistake mask: the positions whose flag is set.\<close>

definition mistakeMask :: "session \<Rightarrow> nat set" where
  "mistakeMask s = set (filter (\<lambda>i. mistakeFlags s ! i) [0..<length (mistakeFlags s)])"

text \<open>
  What holds of the loop's variables whenever the loop is at its head: the buffers keep
  their 1000 cells, the cursor is within the target and within the buffer, the typed
  buffer holds non-NUL characters up to the cursor and NUL at it, every position before
  the cursor that differs from the target is flagged, and the loop is only marked
  finished at the end of the target.
\<close>

definition session_inv :: "char list \<Rightarrow> session \<Rightarrow> bool" where
  "session_inv text s =
     (length (typedText s) = 1000 \<and> length (mistakeFlags s) = 1000 \<and>
      pos s \<le> strlen text \<and> pos s \<le> 999 \<and>
      (\<forall>i<pos s. typedText s ! i \<noteq> NUL) \<and> typedText s ! pos s = NUL \<and>
      (\<forall>i<pos s. typedText s ! i \<noteq> text ! i \<longrightarrow> mistakeFlags s ! i) \<and>
      (testFinished s \<longrightarrow> pos s = strlen text))"

text \<open>The error count equals the number of flagged positions.\<close>

definition errors_flagged :: "session \<Rightarrow> bool" where
  "errors_flagged s = (incorrectKeystrokes s = int (card (mistakeMask s)))"

subsection \<open>Folding results into the profile\<close>

definition add_result ::
  "cfloat \<times> cfloat \<times> int \<times> int \<Rightarrow> TypingResult \<Rightarrow> cfloat \<times> cfloat \<times> int \<times> int" where
  "add_result tot r =
     (case tot of (totalWPM, totalAccuracy, totalChars', totalCorrectChars') \<Rightarrow>
        (fl_add totalWPM (wpm r), fl_add totalAccuracy (accuracy r),
         totalChars' + totalChars r, totalCorrectChars' + correctChars r))"

text \<open>\<^verbatim>\<open>processTypingResults\<close>: \<open>count\<close> is the length of \<open>results\<close>; the value is the
  user record as it is saved.\<close>

definition processTypingResults :: "TypingResult list \<Rightarrow> User \<Rightarrow> User" where
  "processTypingResults results user =
     (case foldl add_result (Fin 0, Fin 0, 0, 0) results of
        (totalWPM, totalAccuracy, totalChars', totalCorrectChars') \<Rightarrow>
          (let count = int (length results);
               avgWPM = fl_div totalWPM (of_cint count);
               avgAccuracy = fl_div totalAccuracy (of_cint count);
               user = (if fl_less (bestWPM user) avgWPM then user\<lparr>bestWPM := avgWPM\<rparr> else user);
               user = (if fl_less (bestAccuracy user) avgAccuracy
                       then user\<lparr>bestAccuracy := avgAccuracy\<rparr> else user);
               user = user\<lparr>totalCharsTyped := totalCharsTyped user + totalChars'\<rparr>;
               user = user\<lparr>totalCorrectChars := totalCorrectChars user + totalCorrectChars'\<rparr>;
               user = user\<lparr>averageAccuracy :=
                        fl_mul (fl_div (of_cint (totalCorrectChars user))
                                       (of_cint (totalCharsTyped user))) (Fin 100)\<rparr>
           in user\<lparr>testsCompleted := testsCompleted user + count\<rparr>))"

subsection \<open>Raw speed mode\<close>

text \<open>
  \<^verbatim>\<open>rawSpeedMode\<close> from the call of \<^verbatim>\<open>typingTest\<close> on: \<open>targetText\<close> is the sampled text,
  \<open>result\<close> the content of the local struct, which the function never initialises.
  The status that \<^verbatim>\<open>typingTest\<close> returns is dropped, as in the source.
\<close>

definition rawSpeedMode ::
  "char list \<Rightarrow> TypingResult \<Rightarrow> real \<Rightarrow> char list \<Rightarrow> User \<Rightarrow> User option" where
  "rawSpeedMode targetText result elapsed keys user =
     (case typingTest targetText result elapsed keys of
        None \<Rightarrow> None
      | Some (status, result', rest) \<Rightarrow> Some (processTypingResults [result'] user))"

subsection \<open>Endurance mode\<close>

record endurance =
  roundsCompleted :: int
  currentAccuracy :: cfloat
  currentWPM :: cfloat
  totalWordsCompleted :: int
  testCanceled :: bool

text \<open>What a round takes from outside: the text sampled for it, the content of its
  local result struct, and the seconds its test measures.\<close>

record round_env =
  round_text :: "char list"
  round_result :: TypingResult
  round_elapsed :: real

definition wordsPerRound :: int where
  "wordsPerRound = 10"

definition ENDURANCE_ACCURACY_THRESHOLD :: cfloat where
  "ENDURANCE_ACCURACY_THRESHOLD = Fin 85"

definition ENDURANCE_WPM_THRESHOLD :: cfloat where
  "ENDURANCE_WPM_THRESHOLD = Fin 30"

definition keep_going :: "endurance \<Rightarrow> bool" where
  "keep_going st =
     (fl_ge (currentAccuracy st) ENDURANCE_ACCURACY_THRESHOLD \<and>
      fl_ge (currentWPM st) ENDURANCE_WPM_THRESHOLD \<and> \<not> testCanceled st)"

definition finish_round :: "endurance \<Rightarrow> TypingResult \<Rightarrow> endurance" where
  "finish_round st result =
     st\<lparr> currentAccuracy := accuracy result, currentWPM := wpm result,
         totalWordsCompleted := totalWordsCompleted st + wordsPerRound,
         roundsCompleted := roundsCompleted st + 1 \<rparr>"

lemma typing_loop_Cancelled_length:
  "typing_loop text s keys = Cancelled rest \<Longrightarrow> length rest < length keys"
proof (induction keys arbitrary: s)
  case Nil
  then show ?case by (simp split: if_splits)
next
  case (Cons ch keys)
  show ?case
  proof (cases "running text s \<and> ch \<noteq> ESC")
    case True
    with Cons.prems have "typing_loop text (key_event text s ch) keys = Cancelled rest"
      by simp
    from Cons.IH [OF this] show ?thesis by simp
  next
    case False
    with Cons.prems show ?thesis by (auto split: if_splits)
  qed
qed

lemma typing_loop_Completed_length:
  "typing_loop text s keys = Completed s' rest \<Longrightarrow> length rest \<le> length keys"
proof (induction keys arbitrary: s)
  case Nil
  then show ?case by (simp split: if_splits)
next
  case (Cons ch keys)
  show ?case
  proof (cases "running text s \<and> ch \<noteq> ESC")
    case True
    with Cons.prems have "typing_loop text (key_event text s ch) keys = Completed s' rest"
      by simp
    from Cons.IH [OF this] show ?thesis by simp
  next
    case False
    with Cons.prems show ?thesis by (auto split: if_splits)
  qed
qed

lemma typingTest_consumes:
  "typingTest text result elapsed keys = Some (status, result', rest) \<Longrightarrow>
   length rest < length keys"
  by (auto simp: typingTest_def split: list.splits loop_exit.splits
           dest: typing_loop_Cancelled_length typing_loop_Completed_length)

text \<open>
  The \<^verbatim>\<open>while\<close> loop of \<^verbatim>\<open>enduranceMode\<close>. Round \<open>n\<close> (the value of \<open>roundsCompleted\<close>)
  runs in \<open>env n\<close>. After a finished round that is at neither threshold's wrong side the
  loop waits for a key before the next round.
\<close>

function endurance_loop ::
  "(int \<Rightarrow> round_env) \<Rightarrow> endurance \<Rightarrow> char list \<Rightarrow> (endurance \<times> char list) option" where
  "endurance_loop env st keys =
     (if keep_going st then
        (case typingTest (round_text (env (roundsCompleted st)))
                         (round_result (env (roundsCompleted st)))
                         (round_elapsed (env (roundsCompleted st))) keys of
           None \<Rightarrow> None
         | Some (testStatus, result, rest) \<Rightarrow>
             if testStatus = 0 then endurance_loop env (st\<lparr>testCanceled := True\<rparr>) rest
             else if fl_less (accuracy result) ENDURANCE_ACCURACY_THRESHOLD
               then endurance_loop env (finish_round st result) rest
             else if fl_less (wpm result) ENDURANCE_WPM_THRESHOLD
               then endurance_loop env (finish_round st result) rest
             else (case rest of
                     [] \<Rightarrow> None
                   | anykey # rest' \<Rightarrow> endurance_loop env (finish_round st result) rest'))
      else Some (st, keys))"
  by pat_completeness auto
termination
proof (relation "measure (\<lambda>(env, st, keys). length keys)")
  show "wf (measure (\<lambda>(env, st, keys). length keys))" by simp
qed (auto dest: typingTest_consumes)

definition endurance_start :: endurance where
  "endurance_start =
     \<lparr> roundsCompleted = 0, currentAccuracy = Fin 100, currentWPM = Fin 100,
       totalWordsCompleted = 0, testCanceled = False \<rparr>"

text \<open>\<^verbatim>\<open>enduranceMode\<close> from its settings on: the value is the user record as it is
  saved, with the final state of the run.\<close>

definition enduranceMode ::
  "(int \<Rightarrow> round_env) \<Rightarrow> User \<Rightarrow> char list \<Rightarrow> (User \<times> endurance) option" where
  "enduranceMode env user keys =
     (case endurance_loop env endurance_start keys of
        None \<Rightarrow> None
      | Some (st, rest) \<Rightarrow>
          (let user = (if totalWordsCompleted st > enduranceHighScore user
                       then user\<lparr>enduranceHighScore := totalWordsCompleted st\<rparr> else user);
               user = user\<lparr>testsCompleted := testsCompleted user + roundsCompleted st\<rparr>
           in Some (user, st)))"

declare endurance_loop.simps [simp del]

text \<open>How the totals of a later state of a run relate to those of an earlier one.\<close>

definition round_totals :: "endurance \<Rightarrow> endurance \<Rightarrow> bool" where
  "round_totals st fin =
     (roundsCompleted st \<le> roundsCompleted fin \<and>
      totalWordsCompleted fin - totalWordsCompleted st
        = 10 * (roundsCompleted fin - roundsCompleted st))"

subsection \<open>A scripted endurance session\<close>

text \<open>
  Three rounds: 20 characters with one wrong in 6 seconds, 10 with one wrong in 3, and 5
  with one wrong in 2. The keys: one to start each test, the typed text, and one at the
  prompt between two rounds.
\<close>

definition scripted_env :: "TypingResult \<Rightarrow> int \<Rightarrow> round_env" where
  "scripted_env junk n =
     (if n = 0 then \<lparr> round_text = ''abcdefghijklmnopqrst'', round_result = junk, round_elapsed = 6 \<rparr>
      else if n = 1 then \<lparr> round_text = ''abcdefghij'', round_result = junk, round_elapsed = 3 \<rparr>
      else \<lparr> round_text = ''abcde'', round_result = junk, round_elapsed = 2 \<rparr>)"

definition scripted_keys :: "char list" where
  "scripted_keys = ''k'' @ ''abcdefghijklmnopqrsX'' @ ''kk'' @ ''abcdefghiX'' @ ''kk'' @ ''abcdX''"

definition sample_result :: TypingResult where
  "sample_result =
     \<lparr> totalChars = 0, correctChars = 0, mistyped = 0, missed = 0, extra = 0,
       accuracy = Fin 0, wpm = Fin 0, timeTaken = Fin 0, resultText = [] \<rparr>"

definition sample_user :: User where
  "sample_user =
     \<lparr> name = ''ann'', bestWPM = Fin 0, bestAccuracy = Fin 0, testsCompleted = 4,
       enduranceHighScore = 20, averageAccuracy = Fin 0, totalCharsTyped = 0,
       totalCorrectChars = 0 \<rparr>"

section \<open>The accuracy scorer\<close>

lemma fold_compare_step:
  "fold (compare_step target typed) [0..<n] (c, m) =
     (c + int (length (filter (\<lambda>i. typed ! i = target ! i) [0..<n])),
      m + int (length (filter (\<lambda>i. typed ! i \<noteq> target ! i) [0..<n])))"
  by (induction n) (simp_all add: compare_step_def)

lemma cstring_nth: "i < strlen buf \<Longrightarrow> cstring buf ! i = buf ! i"
  by (simp add: strlen_def cstring_def takeWhile_nth)

lemma filter_cstring_cong:
  "n \<le> strlen target \<Longrightarrow> n \<le> strlen typed \<Longrightarrow>
   filter (\<lambda>i. P (typed ! i) (target ! i)) [0..<n] =
   filter (\<lambda>i. P (cstring typed ! i) (cstring target ! i)) [0..<n]"
  by (rule filter_cong) (simp_all add: cstring_nth)

lemma compare_chars_spec:
  "compare_chars target typed =
     (int (spec_correct (cstring target) (cstring typed)),
      int (spec_mistyped (cstring target) (cstring typed)))"
proof -
  let ?n = "min (strlen target) (strlen typed)"
  have n: "(if strlen target < strlen typed then strlen target else strlen typed) = ?n"
    by simp
  have le: "?n \<le> strlen target" "?n \<le> strlen typed" by simp_all
  have eq: "filter (\<lambda>i. typed ! i = target ! i) [0..<?n]
          = filter (\<lambda>i. cstring typed ! i = cstring target ! i) [0..<?n]"
    using filter_cstring_cong [OF le, of "(=)"] by simp
  have ne: "filter (\<lambda>i. typed ! i \<noteq> target ! i) [0..<?n]
          = filter (\<lambda>i. cstring typed ! i \<noteq> cstring target ! i) [0..<?n]"
    using filter_cstring_cong [OF le, of "(\<noteq>)"] by simp
  show ?thesis
    unfolding compare_chars_def Let_def n fold_compare_step eq ne
    by (simp add: spec_correct_def spec_mistyped_def strlen_def)
qed

lemma calculateAccuracy_spec:
  "calculateAccuracy target typed =
     \<lparr> sc_accuracy = Fin (spec_accuracy (cstring target) (cstring typed)),
       sc_mistyped = int (spec_mistyped (cstring target) (cstring typed)),
       sc_missed = int (spec_missed (cstring target) (cstring typed)),
       sc_extra = int (spec_extra (cstring target) (cstring typed)) \<rparr>"
  unfolding calculateAccuracy_def Let_def compare_chars_spec
  by (simp add: spec_accuracy_def spec_missed_def spec_extra_def strlen_def of_cint_def max_def)

lemma spec_accuracy_range: "0 \<le> spec_accuracy target typed \<and> spec_accuracy target typed \<le> 100"
  by (simp add: spec_accuracy_def)

lemmas scorer_eval =
  spec_accuracy_def spec_correct_def spec_mistyped_def spec_missed_def spec_extra_def
  cstring_def NUL_def upt_rec

text \<open>
  C3. For every target and typed string, \<^verbatim>\<open>calculateAccuracy\<close> computes what the
  specification describes: a position below both lengths is correct iff the characters
  agree and mistyped otherwise, the shortfall of the typed string is missed, its excess
  is extra, and the accuracy is \<open>100 * (1 - errors / len target)\<close>, not below 0, and 0
  for an empty target. On the named inputs: \<open>hello\<close> against itself scores 100 with no
  error of any kind, \<open>hello\<close> against the empty string scores 0, an empty target scores
  0 against anything, and \<open>cat\<close> against \<open>cats\<close> has one extra character and scores
  \<open>100 * (1 - 1/3)\<close>.
\<close>

theorem calculateAccuracy_refines_spec:
  "calculateAccuracy target typed =
     \<lparr> sc_accuracy = Fin (spec_accuracy (cstring target) (cstring typed)),
       sc_mistyped = int (spec_mistyped (cstring target) (cstring typed)),
       sc_missed = int (spec_missed (cstring target) (cstring typed)),
       sc_extra = int (spec_extra (cstring target) (cstring typed)) \<rparr>
   \<and> fst (compare_chars target typed) = int (spec_correct (cstring target) (cstring typed))
   \<and> calculateAccuracy ''hello'' ''hello''
       = \<lparr> sc_accuracy = Fin 100, sc_mistyped = 0, sc_missed = 0, sc_extra = 0 \<rparr>
   \<and> sc_accuracy (calculateAccuracy ''hello'' []) = Fin 0
   \<and> sc_accuracy (calculateAccuracy [] typed) = Fin 0
   \<and> fst (compare_chars ''cat'' ''cats'') = 3
   \<and> sc_extra (calculateAccuracy ''cat'' ''cats'') = 1
   \<and> sc_accuracy (calculateAccuracy ''cat'' ''cats'') = Fin (100 * (1 - 1 / 3))"
proof -
  have a: "calculateAccuracy ''hello'' ''hello''
       = \<lparr> sc_accuracy = Fin 100, sc_mistyped = 0, sc_missed = 0, sc_extra = 0 \<rparr>"
    unfolding calculateAccuracy_spec by (simp add: scorer_eval)
  have b: "sc_accuracy (calculateAccuracy ''hello'' []) = Fin 0"
    unfolding calculateAccuracy_spec by (simp add: scorer_eval)
  have c: "sc_accuracy (calculateAccuracy [] typed) = Fin 0"
    unfolding calculateAccuracy_spec by (simp add: spec_accuracy_def cstring_def)
  have d: "fst (compare_chars ''cat'' ''cats'') = 3"
    unfolding compare_chars_spec by (simp add: scorer_eval)
  have e: "sc_extra (calculateAccuracy ''cat'' ''cats'') = 1"
    unfolding calculateAccuracy_spec by (simp add: scorer_eval)
  have f: "sc_accuracy (calculateAccuracy ''cat'' ''cats'') = Fin (100 * (1 - 1 / 3))"
    unfolding calculateAccuracy_spec by (simp add: scorer_eval)
  show ?thesis
    using a b c d e f by (simp add: calculateAccuracy_spec compare_chars_spec)
qed

text \<open>
  C7. For every target and typed string the accuracy that \<^verbatim>\<open>calculateAccuracy\<close> returns
  is a number between 0 and 100, both included.
\<close>

theorem calculateAccuracy_in_range:
  "\<exists>r. sc_accuracy (calculateAccuracy target typed) = Fin r \<and> 0 \<le> r \<and> r \<le> 100"
  using spec_accuracy_range [of "cstring target" "cstring typed"]
  by (simp add: calculateAccuracy_spec)

section \<open>The session loop\<close>

lemma render_pos_mono:
  "render_pos text typed i (inc, fl) = (inc', fl') \<Longrightarrow>
   inc \<le> inc' \<and> length fl' = length fl \<and> (\<forall>j. fl ! j \<longrightarrow> fl' ! j)"
proof (cases "i < length fl")
  case True
  assume "render_pos text typed i (inc, fl) = (inc', fl')"
  with True show ?thesis
    by (auto simp: render_pos_def nth_list_update split: if_splits)
next
  case False
  assume "render_pos text typed i (inc, fl) = (inc', fl')"
  with False show ?thesis
    by (auto simp: render_pos_def list_update_beyond split: if_splits)
qed

lemma fold_render_pos_mono:
  "fold (render_pos text typed) xs (inc, fl) = (inc', fl') \<Longrightarrow>
   inc \<le> inc' \<and> length fl' = length fl \<and> (\<forall>j. fl ! j \<longrightarrow> fl' ! j)"
proof (induction xs arbitrary: inc fl)
  case Nil
  then show ?case by simp
next
  case (Cons x xs)
  obtain inc1 fl1 where st: "render_pos text typed x (inc, fl) = (inc1, fl1)"
    by (cases "render_pos text typed x (inc, fl)")
  with Cons.prems have "fold (render_pos text typed) xs (inc1, fl1) = (inc', fl')"
    by simp
  from Cons.IH [OF this] render_pos_mono [OF st] show ?case by auto
qed

lemma render_mono:
  "render text typed p (inc, fl) = (inc', fl') \<Longrightarrow>
   inc \<le> inc' \<and> length fl' = length fl \<and> (\<forall>j. fl ! j \<longrightarrow> fl' ! j)"
  unfolding render_def by (rule fold_render_pos_mono)

lemma fold_render_pos_id:
  "(\<forall>i<n. i < strlen text \<and> (typed ! i = text ! i \<or> fl ! i)) \<Longrightarrow>
   fold (render_pos text typed) [0..<n] (inc, fl) = (inc, fl)"
  by (induction n) (auto simp: render_pos_def)

lemma render_eq:
  assumes "p < strlen text" and "\<forall>i<p. typed ! i = text ! i \<or> fl ! i"
  shows "render text typed p (inc, fl) =
           (if typed ! p = text ! p \<or> fl ! p then (inc, fl) else (inc + 1, fl[p := True]))"
proof -
  have "\<forall>i<p. i < strlen text \<and> (typed ! i = text ! i \<or> fl ! i)"
    using assms by auto
  from fold_render_pos_id [OF this]
  have "fold (render_pos text typed) [0..<p] (inc, fl) = (inc, fl)" .
  then show ?thesis
    using assms(1) by (simp add: render_def render_pos_def)
qed

lemma flag_set_id: "i < length fl \<Longrightarrow> fl ! i \<Longrightarrow> fl[i := True] = fl"
  by (simp add: list_update_same_conv)

lemma isprint_not_NUL: "isprint ch \<Longrightarrow> ch \<noteq> NUL"
  by (auto simp: isprint_def NUL_def)

lemma text_nth_not_NUL: "i < strlen text \<Longrightarrow> text ! i \<noteq> NUL"
  unfolding strlen_def cstring_def
  using nth_mem [of i "takeWhile (\<lambda>c. c \<noteq> NUL) text"] set_takeWhileD [of "text ! i" "\<lambda>c. c \<noteq> NUL" "text"]
  by (simp add: takeWhile_nth)

lemma session_inv_init: "session_inv text session_init"
  by (simp add: session_inv_def session_init_def)

lemma key_event_backspace:
  assumes inv: "session_inv text s" and run: "running text s"
    and bs: "is_backspace ch" and p: "0 < pos s"
  shows "key_event text s ch =
           s\<lparr> pos := pos s - 1, typedText := (typedText s)[pos s - 1 := NUL],
              incorrectKeystrokes := (if mistakeFlags s ! (pos s - 1) then incorrectKeystrokes s
                                      else incorrectKeystrokes s + 1),
              mistakeFlags := (mistakeFlags s)[pos s - 1 := True] \<rparr>"
proof -
  let ?p = "pos s - 1"
  let ?typed = "(typedText s)[?p := NUL]"
  have lt: "?p < strlen text" using run p by (auto simp: running_def)
  have len: "?p < length (typedText s)" "?p < length (mistakeFlags s)"
    using inv p by (auto simp: session_inv_def)
  have before: "\<forall>i<?p. ?typed ! i = text ! i \<or> mistakeFlags s ! i"
  proof (intro allI impI)
    fix i assume i: "i < ?p"
    then have "i < pos s" by simp
    with inv have "typedText s ! i = text ! i \<or> mistakeFlags s ! i"
      by (auto simp: session_inv_def)
    moreover have "?typed ! i = typedText s ! i" using i by simp
    ultimately show "?typed ! i = text ! i \<or> mistakeFlags s ! i" by simp
  qed
  have at: "?typed ! ?p \<noteq> text ! ?p"
    using len text_nth_not_NUL [OF lt] by simp
  have r: "render text ?typed ?p (incorrectKeystrokes s, mistakeFlags s) =
             (if mistakeFlags s ! ?p then (incorrectKeystrokes s, mistakeFlags s)
              else (incorrectKeystrokes s + 1, (mistakeFlags s)[?p := True]))"
    using render_eq [OF lt before] at by simp
  have c: "is_backspace ch \<and> pos s > 0" using bs p by simp
  show ?thesis
    unfolding key_event_def if_P [OF c] Let_def r
    using len by (cases "mistakeFlags s ! ?p") (simp_all add: flag_set_id)
qed

lemma key_event_printable:
  assumes inv: "session_inv text s" and run: "running text s"
    and pr: "isprint ch" and p: "pos s < 999"
  shows "key_event text s ch =
           s\<lparr> typedText := (typedText s)[pos s := ch, pos s + 1 := NUL],
              totalKeystrokes := totalKeystrokes s + 1,
              incorrectKeystrokes := (if ch = text ! pos s \<or> mistakeFlags s ! pos s
                                      then incorrectKeystrokes s
                                      else incorrectKeystrokes s + 1),
              mistakeFlags := (if ch = text ! pos s then mistakeFlags s
                               else (mistakeFlags s)[pos s := True]),
              pos := pos s + 1,
              testFinished := (pos s + 1 = strlen text) \<rparr>"
proof -
  let ?typed = "(typedText s)[pos s := ch, pos s + 1 := NUL]"
  have lt: "pos s < strlen text" and nf: "\<not> testFinished s"
    using run by (simp_all add: running_def)
  have len: "pos s < length (typedText s)" "pos s < length (mistakeFlags s)"
    using inv p by (auto simp: session_inv_def)
  have before: "\<forall>i<pos s. ?typed ! i = text ! i \<or> mistakeFlags s ! i"
  proof (intro allI impI)
    fix i assume i: "i < pos s"
    with inv have "typedText s ! i = text ! i \<or> mistakeFlags s ! i"
      by (auto simp: session_inv_def)
    moreover have "?typed ! i = typedText s ! i" using i by simp
    ultimately show "?typed ! i = text ! i \<or> mistakeFlags s ! i" by simp
  qed
  have at: "?typed ! pos s = ch"
    using len by simp
  have nb: "\<not> (is_backspace ch \<and> 0 < pos s)"
    using pr by (auto simp: is_backspace_def isprint_def)
  have fin: "(strlen text \<le> pos s + 1) = (pos s + 1 = strlen text)"
    using lt by auto
  have r: "render text ?typed (pos s) (incorrectKeystrokes s, mistakeFlags s) =
             (if ch = text ! pos s \<or> mistakeFlags s ! pos s
              then (incorrectKeystrokes s, mistakeFlags s)
              else (incorrectKeystrokes s + 1, (mistakeFlags s)[pos s := True]))"
    using render_eq [OF lt before] at by simp
  have c: "isprint ch \<and> pos s < 999" using pr p by simp
  show ?thesis
    unfolding key_event_def if_not_P [OF nb] if_P [OF c] Let_def r
    using nf len fin
    by (cases "ch = text ! pos s"; cases "mistakeFlags s ! pos s") (simp_all add: flag_set_id)
qed

lemma key_event_other:
  assumes a: "\<not> (is_backspace ch \<and> 0 < pos s)" and b: "\<not> (isprint ch \<and> pos s < 999)"
  shows "key_event text s ch = s"
  unfolding key_event_def if_not_P [OF a] if_not_P [OF b] ..

lemma key_event_inv:
  assumes inv: "session_inv text s" and run: "running text s"
  shows "session_inv text (key_event text s ch)"
proof -
  consider (bs) "is_backspace ch \<and> 0 < pos s"
    | (pr) "\<not> (is_backspace ch \<and> 0 < pos s)" "isprint ch \<and> pos s < 999"
    | (other) "\<not> (is_backspace ch \<and> 0 < pos s)" "\<not> (isprint ch \<and> pos s < 999)"
    by blast
  then show ?thesis
  proof cases
    case bs
    then have e: "key_event text s ch = s\<lparr> pos := pos s - 1, typedText := (typedText s)[pos s - 1 := NUL],
              incorrectKeystrokes := (if mistakeFlags s ! (pos s - 1) then incorrectKeystrokes s
                                      else incorrectKeystrokes s + 1),
              mistakeFlags := (mistakeFlags s)[pos s - 1 := True] \<rparr>"
      using key_event_backspace [OF inv run] by simp
    show ?thesis
      unfolding e using inv run bs
      by (auto simp: session_inv_def running_def nth_list_update)
  next
    case pr
    then have e: "key_event text s ch = s\<lparr> typedText := (typedText s)[pos s := ch, pos s + 1 := NUL],
              totalKeystrokes := totalKeystrokes s + 1,
              incorrectKeystrokes := (if ch = text ! pos s \<or> mistakeFlags s ! pos s
                                      then incorrectKeystrokes s
                                      else incorrectKeystrokes s + 1),
              mistakeFlags := (if ch = text ! pos s then mistakeFlags s
                               else (mistakeFlags s)[pos s := True]),
              pos := pos s + 1,
              testFinished := (pos s + 1 = strlen text) \<rparr>"
      using key_event_printable [OF inv run] by simp
    show ?thesis
      unfolding e using inv run pr isprint_not_NUL [of ch]
      by (auto simp: session_inv_def running_def nth_list_update less_Suc_eq)
  next
    case other
    then show ?thesis using inv by (simp add: key_event_other)
  qed
qed

lemma loop_heads_inv:
  "session_inv text s \<Longrightarrow> s' \<in> set (loop_heads text s keys) \<Longrightarrow> session_inv text s'"
proof (induction keys arbitrary: s)
  case Nil
  then show ?case by simp
next
  case (Cons ch keys)
  show ?case
  proof (cases "running text s \<and> ch \<noteq> ESC")
    case True
    with Cons.prems(2) have "s' = s \<or> s' \<in> set (loop_heads text (key_event text s ch) keys)"
      by simp
    then show ?thesis
      using Cons.IH [OF key_event_inv [OF Cons.prems(1)]] True Cons.prems(1) by blast
  next
    case False
    with Cons.prems show ?thesis by auto
  qed
qed

lemma session_inv_strlen:
  assumes "session_inv text s"
  shows "cstring (typedText s) = take (pos s) (typedText s)" and "strlen (typedText s) = pos s"
proof -
  have a: "\<forall>i. i < pos s \<longrightarrow> i < length (typedText s) \<longrightarrow> typedText s ! i \<noteq> NUL"
    using assms by (simp add: session_inv_def)
  have b: "pos s < length (typedText s)" using assms by (simp add: session_inv_def)
  have c: "\<not> (typedText s ! pos s \<noteq> NUL)" using assms by (simp add: session_inv_def)
  show "cstring (typedText s) = take (pos s) (typedText s)"
    unfolding cstring_def using a b c by (intro takeWhile_eq_take_P_nth) auto
  then show "strlen (typedText s) = pos s"
    using b by (simp add: strlen_def)
qed

section \<open>Monotone quantities of a session\<close>

lemmas session_eval =
  key_event_def session_init_def render_def render_pos_def strlen_def cstring_def NUL_def
  ESC_def is_backspace_def isprint_def running_def Let_def

lemma key_event_flags_mono:
  "length (mistakeFlags (key_event text s ch)) = length (mistakeFlags s) \<and>
   (\<forall>j. mistakeFlags s ! j \<longrightarrow> mistakeFlags (key_event text s ch) ! j)"
proof -
  have r: "length (snd (render text typed p (incorrectKeystrokes s, mistakeFlags s))) = length (mistakeFlags s) \<and>
        (\<forall>j. mistakeFlags s ! j \<longrightarrow> snd (render text typed p (incorrectKeystrokes s, mistakeFlags s)) ! j)"
    for typed p
    using render_mono [of "text" typed p "incorrectKeystrokes s" "mistakeFlags s"]
    by (cases "render text typed p (incorrectKeystrokes s, mistakeFlags s)") simp
  show ?thesis
    unfolding key_event_def Let_def using r by simp
qed

lemma key_event_counters_mono:
  "totalKeystrokes s \<le> totalKeystrokes (key_event text s ch) \<and>
   incorrectKeystrokes s \<le> incorrectKeystrokes (key_event text s ch)"
proof -
  have r: "incorrectKeystrokes s \<le> fst (render text typed p (incorrectKeystrokes s, mistakeFlags s))"
    for typed p
    using render_mono [of "text" typed p "incorrectKeystrokes s" "mistakeFlags s"]
    by (cases "render text typed p (incorrectKeystrokes s, mistakeFlags s)") simp
  show ?thesis
    unfolding key_event_def Let_def using r by simp
qed

lemma key_event_mask_mono: "mistakeMask s \<subseteq> mistakeMask (key_event text s ch)"
  using key_event_flags_mono [of "text" s ch] by (auto simp: mistakeMask_def)

lemma loop_heads_from:
  assumes step: "\<And>s ch. R s (key_event text s ch)" and refl: "\<And>s. R s s"
    and trans: "\<And>a b c. R a b \<Longrightarrow> R b c \<Longrightarrow> R a c"
  shows "x \<in> set (loop_heads text s keys) \<Longrightarrow> R s x"
proof (induction keys arbitrary: s)
  case Nil
  then show ?case using refl by simp
next
  case (Cons ch keys)
  show ?case
  proof (cases "running text s \<and> ch \<noteq> ESC")
    case True
    with Cons.prems have "x = s \<or> x \<in> set (loop_heads text (key_event text s ch) keys)"
      by simp
    then show ?thesis using Cons.IH refl trans step by blast
  next
    case False
    with Cons.prems show ?thesis using refl by auto
  qed
qed

lemma loop_heads_sorted_wrt:
  assumes step: "\<And>s ch. R s (key_event text s ch)" and refl: "\<And>s. R s s"
    and trans: "\<And>a b c. R a b \<Longrightarrow> R b c \<Longrightarrow> R a c"
  shows "sorted_wrt R (loop_heads text s keys)"
proof (induction keys arbitrary: s)
  case Nil
  then show ?case by simp
next
  case (Cons ch keys)
  show ?case
  proof (cases "running text s \<and> ch \<noteq> ESC")
    case True
    have "R s x" if "x \<in> set (loop_heads text (key_event text s ch) keys)" for x
    proof -
      have "R (key_event text s ch) x"
        by (rule loop_heads_from [of R, OF step refl trans that])
      then show ?thesis by (rule trans [OF step])
    qed
    then show ?thesis using True Cons.IH by simp
  next
    case False
    then show ?thesis by auto
  qed
qed

lemma loop_heads_sorted:
  fixes f :: "session \<Rightarrow> int"
  assumes "\<And>s ch. f s \<le> f (key_event text s ch)"
  shows "sorted (map f (loop_heads text s keys))"
proof -
  have "sorted_wrt (\<lambda>a b. f a \<le> f b) (loop_heads text s keys)"
    by (rule loop_heads_sorted_wrt) (use assms in auto)
  then show ?thesis by (simp add: sorted_map)
qed

lemma heads_inv:
  "s \<in> set (loop_heads text session_init keys) \<Longrightarrow> session_inv text s"
  by (rule loop_heads_inv [OF session_inv_init])

text \<open>
  C8. The mistake mask only grows during a session: whatever the state and the key, every
  position in the mask before the loop body runs is in it afterwards, and along the
  states a session goes through, the mask of an earlier state is contained in the mask
  of every later one. Nothing removes a position, a later correct character included.
\<close>

theorem mistakeMask_only_grows:
  "mistakeMask s \<subseteq> mistakeMask (key_event text s ch) \<and>
   sorted_wrt (\<lambda>a b. mistakeMask a \<subseteq> mistakeMask b) (loop_heads text s keys)"
proof
  show "mistakeMask s \<subseteq> mistakeMask (key_event text s ch)" by (rule key_event_mask_mono)
  show "sorted_wrt (\<lambda>a b. mistakeMask a \<subseteq> mistakeMask b) (loop_heads text s keys)"
    by (rule loop_heads_sorted_wrt) (auto intro: key_event_mask_mono [THEN subsetD])
qed



theorem mistakeMask_only_grows_witness:
  "0 \<in> mistakeMask (key_event ''ab'' session_init (CHR ''x''))
   \<and> 0 \<in> mistakeMask (key_event ''ab'' (key_event ''ab'' (key_event ''ab'' session_init
              (CHR ''x'')) (CHR 0x08)) (CHR ''a''))
   \<and> typedText (key_event ''ab'' (key_event ''ab'' (key_event ''ab'' session_init
              (CHR ''x'')) (CHR 0x08)) (CHR ''a'')) ! 0 = ''ab'' ! 0"
proof -
  let ?s1 = "key_event ''ab'' session_init (CHR ''x'')"
  let ?s2 = "key_event ''ab'' ?s1 (CHR 0x08)"
  have a: "0 \<in> mistakeMask ?s1"
    by (simp add: session_eval mistakeMask_def)
  have b: "typedText (key_event ''ab'' ?s2 (CHR ''a'')) ! 0 = ''ab'' ! 0"
    by (simp add: session_eval)
  from a mistakeMask_only_grows [of ?s1 "''ab''" "CHR 0x08"]
       mistakeMask_only_grows [of ?s2 "''ab''" "CHR ''a''"] b
  show ?thesis by blast
qed

text \<open>
  C9. In a running session a backspace with the cursor above 0 moves the cursor back by
  one and cuts the typed string to the new cursor length, and leaves the keystroke
  count as it is. No key, backspace included, lowers the keystroke count or the error
  count: along the states of a session both are non-decreasing.
\<close>

theorem backspace_and_counters:
  assumes "s \<in> set (loop_heads text session_init keys)" and "running text s"
  shows "(is_backspace ch \<and> 0 < pos s \<longrightarrow>
            pos (key_event text s ch) = pos s - 1 \<and>
            cstring (typedText (key_event text s ch)) = take (pos s - 1) (cstring (typedText s)) \<and>
            strlen (typedText (key_event text s ch)) = pos s - 1 \<and>
            totalKeystrokes (key_event text s ch) = totalKeystrokes s)
         \<and> totalKeystrokes s \<le> totalKeystrokes (key_event text s ch)
         \<and> incorrectKeystrokes s \<le> incorrectKeystrokes (key_event text s ch)
         \<and> sorted (map totalKeystrokes (loop_heads text session_init keys))
         \<and> sorted (map incorrectKeystrokes (loop_heads text session_init keys))"
proof -
  have inv: "session_inv text s" using assms(1) by (rule heads_inv)
  have inv': "session_inv text (key_event text s ch)"
    using inv assms(2) by (rule key_event_inv)
  have bs: "pos (key_event text s ch) = pos s - 1 \<and>
            cstring (typedText (key_event text s ch)) = take (pos s - 1) (cstring (typedText s)) \<and>
            strlen (typedText (key_event text s ch)) = pos s - 1 \<and>
            totalKeystrokes (key_event text s ch) = totalKeystrokes s"
    if b: "is_backspace ch" and p: "0 < pos s"
  proof -
    have e: "pos (key_event text s ch) = pos s - 1"
            "typedText (key_event text s ch) = (typedText s)[pos s - 1 := NUL]"
            "totalKeystrokes (key_event text s ch) = totalKeystrokes s"
      by (simp_all add: key_event_backspace [OF inv assms(2) b p])
    have "cstring (typedText (key_event text s ch)) = take (pos s - 1) (typedText (key_event text s ch))"
      using session_inv_strlen(1) [OF inv'] e(1) by simp
    also have "\<dots> = take (pos s - 1) (typedText s)"
      by (simp add: e(2))
    also have "\<dots> = take (pos s - 1) (take (pos s) (typedText s))"
      by (simp add: min_def)
    also have "\<dots> = take (pos s - 1) (cstring (typedText s))"
      by (simp only: session_inv_strlen(1) [OF inv])
    finally have c: "cstring (typedText (key_event text s ch)) = take (pos s - 1) (cstring (typedText s))" .
    have l: "strlen (typedText (key_event text s ch)) = pos s - 1"
      using session_inv_strlen(2) [OF inv'] e(1) by simp
    show ?thesis using e(1) e(3) c l by simp
  qed
  have t: "sorted (map totalKeystrokes (loop_heads text session_init keys))"
    by (rule loop_heads_sorted) (simp add: key_event_counters_mono)
  have i: "sorted (map incorrectKeystrokes (loop_heads text session_init keys))"
    by (rule loop_heads_sorted) (simp add: key_event_counters_mono)
  show ?thesis
    using bs t i key_event_counters_mono [of s "text" ch] by blast
qed


theorem backspace_and_counters_witness:
  "key_event ''ab'' session_init (CHR ''a'') \<in> set (loop_heads ''ab'' session_init [CHR ''a''])
   \<and> running ''ab'' (key_event ''ab'' session_init (CHR ''a''))
   \<and> is_backspace (CHR 0x08) \<and> 0 < pos (key_event ''ab'' session_init (CHR ''a''))
   \<and> pos (key_event ''ab'' (key_event ''ab'' session_init (CHR ''a'')) (CHR 0x08)) = 0
   \<and> cstring (typedText (key_event ''ab'' (key_event ''ab'' session_init (CHR ''a'')) (CHR 0x08))) = []
   \<and> totalKeystrokes (key_event ''ab'' (key_event ''ab'' session_init (CHR ''a'')) (CHR 0x08)) = 1
   \<and> sorted (map incorrectKeystrokes (loop_heads ''ab'' session_init [CHR ''a'']))"
proof -
  let ?s = "key_event ''ab'' session_init (CHR ''a'')"
  have h1: "?s \<in> set (loop_heads ''ab'' session_init [CHR ''a''])"
    by (simp add: session_eval)
  have h2: "running ''ab'' ?s"
    by (simp add: session_eval)
  have h3: "is_backspace (CHR 0x08)" "0 < pos ?s" "pos ?s = 1" "totalKeystrokes ?s = 1"
    by (simp_all add: session_eval)
  from backspace_and_counters [OF h1 h2, of "CHR 0x08"] h1 h2 h3
  show ?thesis by simp
qed

section \<open>Cursor, buffer and error count during a session\<close>

lemma typing_loop_Completed_head:
  "typing_loop text s keys = Completed s' rest \<Longrightarrow>
   s' \<in> set (loop_heads text s keys) \<and> \<not> running text s'"
proof (induction keys arbitrary: s)
  case Nil
  then show ?case by (simp split: if_splits)
next
  case (Cons ch keys)
  show ?case
  proof (cases "running text s \<and> ch \<noteq> ESC")
    case True
    with Cons.prems have "typing_loop text (key_event text s ch) keys = Completed s' rest"
      by simp
    from Cons.IH [OF this] True show ?thesis by simp
  next
    case False
    with Cons.prems show ?thesis by (auto split: if_splits)
  qed
qed

lemma mistakeMask_mem: "i \<in> mistakeMask s \<longleftrightarrow> i < length (mistakeFlags s) \<and> mistakeFlags s ! i"
  by (auto simp: mistakeMask_def)

lemma mistakeMask_set_flag:
  assumes "p < length (mistakeFlags s)" and "mistakeFlags s' = (mistakeFlags s)[p := True]"
  shows "mistakeMask s' = insert p (mistakeMask s)"
  using assms by (auto simp: mistakeMask_mem nth_list_update split: if_splits)

lemma mistakeMask_same_flags:
  "mistakeFlags s' = mistakeFlags s \<Longrightarrow> mistakeMask s' = mistakeMask s"
  by (simp add: mistakeMask_def)

lemma finite_mistakeMask: "finite (mistakeMask s)"
  by (simp add: mistakeMask_def)

lemma key_event_errors_flagged:
  assumes inv: "session_inv text s" and run: "running text s" and ef: "errors_flagged s"
  shows "errors_flagged (key_event text s ch)"
proof -
  consider (bs) "is_backspace ch \<and> 0 < pos s"
    | (pr) "\<not> (is_backspace ch \<and> 0 < pos s)" "isprint ch \<and> pos s < 999"
    | (other) "\<not> (is_backspace ch \<and> 0 < pos s)" "\<not> (isprint ch \<and> pos s < 999)"
    by blast
  then show ?thesis
  proof cases
    case bs
    let ?p = "pos s - 1"
    have len: "?p < length (mistakeFlags s)" using inv bs by (auto simp: session_inv_def)
    have e: "mistakeFlags (key_event text s ch) = (mistakeFlags s)[?p := True]"
        "incorrectKeystrokes (key_event text s ch) =
           (if mistakeFlags s ! ?p then incorrectKeystrokes s else incorrectKeystrokes s + 1)"
      using bs by (simp_all add: key_event_backspace [OF inv run])
    have m: "mistakeMask (key_event text s ch) = insert ?p (mistakeMask s)"
      using len e(1) by (rule mistakeMask_set_flag)
    have "?p \<in> mistakeMask s \<longleftrightarrow> mistakeFlags s ! ?p"
      using len by (simp add: mistakeMask_mem)
    then show ?thesis
      using ef finite_mistakeMask [of s]
      unfolding errors_flagged_def m e(2) by (simp add: card_insert_if)
  next
    case pr
    let ?p = "pos s"
    have len: "?p < length (mistakeFlags s)" using inv pr by (auto simp: session_inv_def)
    have e: "mistakeFlags (key_event text s ch) =
               (if ch = text ! ?p then mistakeFlags s else (mistakeFlags s)[?p := True])"
        "incorrectKeystrokes (key_event text s ch) =
           (if ch = text ! ?p \<or> mistakeFlags s ! ?p then incorrectKeystrokes s
            else incorrectKeystrokes s + 1)"
      using pr by (simp_all add: key_event_printable [OF inv run])
    have mem: "?p \<in> mistakeMask s \<longleftrightarrow> mistakeFlags s ! ?p"
      using len by (simp add: mistakeMask_mem)
    show ?thesis
    proof (cases "ch = text ! ?p")
      case True
      then have "mistakeFlags (key_event text s ch) = mistakeFlags s"
        using e(1) by simp
      then have "mistakeMask (key_event text s ch) = mistakeMask s"
        by (rule mistakeMask_same_flags)
      then show ?thesis using ef True e(2) by (simp add: errors_flagged_def)
    next
      case False
      then have "mistakeFlags (key_event text s ch) = (mistakeFlags s)[?p := True]"
        using e(1) by simp
      with len have m: "mistakeMask (key_event text s ch) = insert ?p (mistakeMask s)"
        by (rule mistakeMask_set_flag)
      show ?thesis
        using ef finite_mistakeMask [of s] False mem
        unfolding errors_flagged_def m e(2) by (simp add: card_insert_if)
    qed
  next
    case other
    then show ?thesis using ef by (simp add: key_event_other)
  qed
qed

lemma loop_heads_errors_flagged:
  "session_inv text s \<Longrightarrow> errors_flagged s \<Longrightarrow> s' \<in> set (loop_heads text s keys) \<Longrightarrow>
   errors_flagged s'"
proof (induction keys arbitrary: s)
  case Nil
  then show ?case by simp
next
  case (Cons ch keys)
  show ?case
  proof (cases "running text s \<and> ch \<noteq> ESC")
    case True
    with Cons.prems(3) have "s' = s \<or> s' \<in> set (loop_heads text (key_event text s ch) keys)"
      by simp
    then show ?thesis
    proof
      assume "s' = s" then show ?thesis using Cons.prems(2) by simp
    next
      assume m: "s' \<in> set (loop_heads text (key_event text s ch) keys)"
      have r: "running text s" using True by simp
      have i: "session_inv text (key_event text s ch)"
        using Cons.prems(1) r by (rule key_event_inv)
      have f: "errors_flagged (key_event text s ch)"
        using Cons.prems(1) r Cons.prems(2) by (rule key_event_errors_flagged)
      from Cons.IH [OF i f m] show ?thesis .
    qed
  next
    case False
    with Cons.prems show ?thesis by auto
  qed
qed

lemma errors_flagged_init: "errors_flagged session_init"
  by (simp add: errors_flagged_def session_init_def mistakeMask_def filter_empty_conv)

text \<open>
  C10. In every state a session goes through, the cursor is between 0 and the length of
  the target, and the typed string is as long as the cursor says, so never longer than
  the target. The loop is at its end exactly when the cursor equals the length of the
  target, and a session that completes does so with the cursor and the typed string at
  that length. The redraw of a loop pass, for a backspace or for a printable key, only
  visits indices below the length of the target, so the branch for positions at or
  beyond it is never taken; accordingly the error count always equals the number of
  flagged positions, which an increment of that branch (it flags nothing) would break.
\<close>

theorem cursor_within_target:
  assumes "s \<in> set (loop_heads text session_init keys)"
  shows "pos s \<le> strlen text
       \<and> strlen (typedText s) = pos s
       \<and> strlen (typedText s) \<le> strlen text
       \<and> (\<not> running text s \<longleftrightarrow> pos s = strlen text)
       \<and> (typing_loop text session_init keys = Completed s' rest \<longrightarrow>
            pos s' = strlen text \<and> strlen (typedText s') = strlen text)
       \<and> (running text s \<and> is_backspace ch \<and> 0 < pos s \<longrightarrow>
            (\<forall>i \<in> set [0..<Suc (pos s - 1)]. i < strlen text))
       \<and> (running text s \<and> isprint ch \<and> pos s < 999 \<longrightarrow>
            (\<forall>i \<in> set [0..<Suc (pos s)]. i < strlen text))
       \<and> incorrectKeystrokes s = int (card (mistakeMask s))"
proof -
  have inv: "session_inv text s" using assms by (rule heads_inv)
  have a: "pos s \<le> strlen text" using inv by (simp add: session_inv_def)
  have b: "strlen (typedText s) = pos s" by (rule session_inv_strlen(2) [OF inv])
  have c: "\<not> running text s \<longleftrightarrow> pos s = strlen text"
    using inv by (auto simp: session_inv_def running_def)
  have d: "pos s' = strlen text \<and> strlen (typedText s') = strlen text"
    if "typing_loop text session_init keys = Completed s' rest"
  proof -
    from typing_loop_Completed_head [OF that]
    have h: "s' \<in> set (loop_heads text session_init keys)" and nr: "\<not> running text s'"
      by simp_all
    have inv': "session_inv text s'" using h by (rule heads_inv)
    have "pos s' = strlen text"
      using inv' nr by (auto simp: session_inv_def running_def)
    then show ?thesis using session_inv_strlen(2) [OF inv'] by simp
  qed
  have e: "\<forall>i \<in> set [0..<Suc (pos s - 1)]. i < strlen text"
    if "running text s" "0 < pos s"
    using that by (auto simp: running_def)
  have f: "\<forall>i \<in> set [0..<Suc (pos s)]. i < strlen text" if "running text s"
    using that by (auto simp: running_def)
  have g: "incorrectKeystrokes s = int (card (mistakeMask s))"
    using loop_heads_errors_flagged [OF session_inv_init errors_flagged_init assms]
    by (simp add: errors_flagged_def)
  show ?thesis
  proof (intro conjI impI)
    show "pos s \<le> strlen text" by (rule a)
    show "strlen (typedText s) = pos s" by (rule b)
    show "strlen (typedText s) \<le> strlen text" using a b by simp
    show "(\<not> running text s) = (pos s = strlen text)" by (rule c)
    show "incorrectKeystrokes s = int (card (mistakeMask s))" by (rule g)
  qed (use d e f in blast)+
qed


theorem cursor_within_target_witness:
  "key_event ''ab'' session_init (CHR ''a'') \<in> set (loop_heads ''ab'' session_init ''ab'')
   \<and> running ''ab'' (key_event ''ab'' session_init (CHR ''a''))
   \<and> is_backspace (CHR 0x08) \<and> isprint (CHR ''b'')
   \<and> typing_loop ''ab'' session_init ''ab''
        = Completed (key_event ''ab'' (key_event ''ab'' session_init (CHR ''a'')) (CHR ''b'')) []
   \<and> pos (key_event ''ab'' (key_event ''ab'' session_init (CHR ''a'')) (CHR ''b'')) = strlen ''ab''
   \<and> strlen (typedText (key_event ''ab'' session_init (CHR ''a''))) = 1
   \<and> [0..<Suc (pos (key_event ''ab'' session_init (CHR ''a'')))] = [0, 1]
   \<and> incorrectKeystrokes (key_event ''ab'' session_init (CHR ''a''))
        = int (card (mistakeMask (key_event ''ab'' session_init (CHR ''a''))))"
proof -
  let ?s = "key_event ''ab'' session_init (CHR ''a'')"
  let ?s' = "key_event ''ab'' ?s (CHR ''b'')"
  have h: "?s \<in> set (loop_heads ''ab'' session_init ''ab'')"
    by (simp add: session_eval)
  have r: "running ''ab'' ?s" "pos ?s = 1" "pos ?s < 999"
    by (simp_all add: session_eval)
  have k: "is_backspace (CHR 0x08)" "isprint (CHR ''b'')"
    by (simp_all add: session_eval)
  have t: "typing_loop ''ab'' session_init ''ab'' = Completed ?s' []"
    by (simp add: session_eval)
  from cursor_within_target [OF h, of ?s' "[]" "CHR 0x08"]
       cursor_within_target [OF h, of ?s' "[]" "CHR ''b''"] h r k t
  show ?thesis by simp
qed

text \<open>
  C6. In a running session, a backspace that erases position \<open>p\<close> (the cursor moves back
  to \<open>p\<close>) leaves the NUL terminator at \<open>p\<close> in the typed buffer; the redraw compares it
  with the target character at \<open>p\<close>, which is not NUL. If \<open>p\<close> was not in the mistake mask,
  the backspace raises the error count by one and puts \<open>p\<close> into the mask, whatever
  character was erased: in the witness the erased character had been typed correctly.
\<close>

theorem backspace_counts_error:
  assumes "s \<in> set (loop_heads text session_init keys)" and "running text s"
    and "is_backspace ch" and "0 < pos s" and "pos s - 1 \<notin> mistakeMask s"
  shows "pos (key_event text s ch) = pos s - 1
       \<and> typedText (key_event text s ch) ! (pos s - 1) = NUL
       \<and> text ! (pos s - 1) \<noteq> NUL
       \<and> incorrectKeystrokes (key_event text s ch) = incorrectKeystrokes s + 1
       \<and> mistakeMask (key_event text s ch) = insert (pos s - 1) (mistakeMask s)"
proof -
  let ?p = "pos s - 1"
  have inv: "session_inv text s" using assms(1) by (rule heads_inv)
  have len: "?p < length (mistakeFlags s)" "?p < length (typedText s)"
    using inv assms(4) by (auto simp: session_inv_def)
  have lt: "?p < strlen text" using assms(2,4) by (auto simp: running_def)
  have nf: "\<not> mistakeFlags s ! ?p"
    using assms(5) len(1) by (simp add: mistakeMask_mem)
  have e: "pos (key_event text s ch) = ?p"
      "typedText (key_event text s ch) = (typedText s)[?p := NUL]"
      "mistakeFlags (key_event text s ch) = (mistakeFlags s)[?p := True]"
      "incorrectKeystrokes (key_event text s ch) =
         (if mistakeFlags s ! ?p then incorrectKeystrokes s else incorrectKeystrokes s + 1)"
    by (simp_all add: key_event_backspace [OF inv assms(2) assms(3) assms(4)])
  have m: "mistakeMask (key_event text s ch) = insert ?p (mistakeMask s)"
    using len(1) e(3) by (rule mistakeMask_set_flag)
  have t: "typedText (key_event text s ch) ! ?p = NUL"
    using len(2) by (simp add: e(2))
  show ?thesis
    using e(1) t text_nth_not_NUL [OF lt] e(4) nf m by simp
qed

theorem backspace_counts_error_witness:
  "key_event ''ab'' session_init (CHR ''a'') \<in> set (loop_heads ''ab'' session_init [CHR ''a''])
   \<and> running ''ab'' (key_event ''ab'' session_init (CHR ''a''))
   \<and> is_backspace (CHR 0x08)
   \<and> 0 < pos (key_event ''ab'' session_init (CHR ''a''))
   \<and> pos (key_event ''ab'' session_init (CHR ''a'')) - 1
        \<notin> mistakeMask (key_event ''ab'' session_init (CHR ''a''))
   \<and> typedText (key_event ''ab'' session_init (CHR ''a'')) ! 0 = ''ab'' ! 0
   \<and> incorrectKeystrokes (key_event ''ab'' session_init (CHR ''a'')) = 0
   \<and> incorrectKeystrokes (key_event ''ab'' (key_event ''ab'' session_init (CHR ''a'')) (CHR 0x08)) = 1
   \<and> 0 \<in> mistakeMask (key_event ''ab'' (key_event ''ab'' session_init (CHR ''a'')) (CHR 0x08))"
proof -
  let ?s = "key_event ''ab'' session_init (CHR ''a'')"
  have h1: "?s \<in> set (loop_heads ''ab'' session_init [CHR ''a''])"
    by (simp add: session_eval)
  have h2: "running ''ab'' ?s" by (simp add: session_eval)
  have h3: "is_backspace (CHR 0x08)" by (simp add: session_eval)
  have h4: "0 < pos ?s" by (simp add: session_eval)
  have h5: "pos ?s - 1 \<notin> mistakeMask ?s" by (simp add: session_eval mistakeMask_def)
  have v: "pos ?s = 1" "typedText ?s ! 0 = ''ab'' ! 0" "incorrectKeystrokes ?s = 0"
    by (simp_all add: session_eval)
  from backspace_counts_error [OF h1 h2 h3 h4 h5] h1 h2 h3 h4 h5 v
  show ?thesis by simp
qed

text \<open>
  C2, as amended. In a running session a wrong printable character typed at the cursor
  raises the error count by one only if the cursor position is not yet in the mistake
  mask, and puts the position into the mask; typed at a position already in the mask
  (typed wrong before, or erased by a backspace, and now typed wrong again) it leaves
  the error count as it is. The once-counted rule governs the error count itself.
\<close>

theorem wrong_key_counted_once_per_position:
  assumes "s \<in> set (loop_heads text session_init keys)" and "running text s"
    and "isprint ch" and "pos s < 999" and "ch \<noteq> text ! pos s"
  shows "incorrectKeystrokes (key_event text s ch) =
           (if pos s \<in> mistakeMask s then incorrectKeystrokes s else incorrectKeystrokes s + 1)
       \<and> mistakeMask (key_event text s ch) = insert (pos s) (mistakeMask s)"
proof -
  have inv: "session_inv text s" using assms(1) by (rule heads_inv)
  have len: "pos s < length (mistakeFlags s)"
    using inv assms(4) by (auto simp: session_inv_def)
  have mem: "pos s \<in> mistakeMask s \<longleftrightarrow> mistakeFlags s ! pos s"
    using len by (simp add: mistakeMask_mem)
  have e: "mistakeFlags (key_event text s ch) = (mistakeFlags s)[pos s := True]"
      "incorrectKeystrokes (key_event text s ch) =
         (if mistakeFlags s ! pos s then incorrectKeystrokes s else incorrectKeystrokes s + 1)"
    using assms(5) by (simp_all add: key_event_printable [OF inv assms(2) assms(3) assms(4)])
  have m: "mistakeMask (key_event text s ch) = insert (pos s) (mistakeMask s)"
    using len e(1) by (rule mistakeMask_set_flag)
  show ?thesis using e(2) m mem by simp
qed

theorem wrong_key_counted_once_per_position_witness:
  "key_event ''ab'' (key_event ''ab'' session_init (CHR ''x'')) (CHR 0x08)
      \<in> set (loop_heads ''ab'' session_init [CHR ''x'', CHR 0x08])
   \<and> running ''ab'' (key_event ''ab'' (key_event ''ab'' session_init (CHR ''x'')) (CHR 0x08))
   \<and> isprint (CHR ''y'')
   \<and> pos (key_event ''ab'' (key_event ''ab'' session_init (CHR ''x'')) (CHR 0x08)) < 999
   \<and> CHR ''y'' \<noteq> ''ab'' ! pos (key_event ''ab'' (key_event ''ab'' session_init (CHR ''x'')) (CHR 0x08))
   \<and> incorrectKeystrokes (key_event ''ab'' (key_event ''ab'' (key_event ''ab'' session_init
         (CHR ''x'')) (CHR 0x08)) (CHR ''y'')) = 1"
proof -
  let ?s = "key_event ''ab'' (key_event ''ab'' session_init (CHR ''x'')) (CHR 0x08)"
  have h1: "?s \<in> set (loop_heads ''ab'' session_init [CHR ''x'', CHR 0x08])"
    by (simp add: session_eval)
  have h2: "running ''ab'' ?s" by (simp add: session_eval)
  have h3: "isprint (CHR ''y'')" by (simp add: session_eval)
  have h4: "pos ?s < 999" by (simp add: session_eval)
  have h5: "CHR ''y'' \<noteq> ''ab'' ! pos ?s" by (simp add: session_eval)
  have v: "pos ?s \<in> mistakeMask ?s" "incorrectKeystrokes ?s = 1"
    by (simp_all add: session_eval mistakeMask_def)
  from wrong_key_counted_once_per_position [OF h1 h2 h3 h4 h5] h1 h2 h3 h4 h5 v
  show ?thesis by simp
qed

text \<open>
  C2 as stated fails: on target \<open>ab\<close>, typing \<open>x\<close>, backspace, \<open>y\<close> gives the error counts
  0, 1, 1, 1. The wrong \<open>y\<close> freshly typed at position 0 is not counted.
\<close>

theorem retyped_wrong_key_counterexample:
  "isprint (CHR ''y'')
   \<and> CHR ''y'' \<noteq> ''ab'' ! 0
   \<and> running ''ab'' (key_event ''ab'' (key_event ''ab'' session_init (CHR ''x'')) (CHR 0x08))
   \<and> pos (key_event ''ab'' (key_event ''ab'' session_init (CHR ''x'')) (CHR 0x08)) = 0
   \<and> map incorrectKeystrokes (loop_heads ''ab'' session_init [CHR ''x'', CHR 0x08, CHR ''y''])
        = [0, 1, 1, 1]
   \<and> incorrectKeystrokes (key_event ''ab'' (key_event ''ab'' (key_event ''ab'' session_init
         (CHR ''x'')) (CHR 0x08)) (CHR ''y''))
      \<noteq> incorrectKeystrokes (key_event ''ab'' (key_event ''ab'' session_init (CHR ''x''))
           (CHR 0x08)) + 1"
  by (simp add: session_eval)

section \<open>The divisions at the end of a session\<close>

text \<open>
  C5. The claim asks that every division of the session-end computation be guarded against
  a zero denominator. The keystroke accuracy is (it is 0 for no keystrokes), the
  words-per-minute figure is not: when the two clock readings agree, the elapsed time is
  0 and \<^verbatim>\<open>typingTest\<close> divides by it. On an empty target the result is NaN (0 / 0), on
  the target \<open>a\<close> typed correctly it is plus infinity; neither is a numeric fallback.
\<close>

theorem wpm_division_unguarded:
  "wpm (finish_result text result 0 s) = (if pos s = 0 then NaN else PInf)
   \<and> typingTest [] result 0 [anykey] = Some (1, finish_result [] result 0 session_init, [])
   \<and> accuracy (finish_result [] result 0 session_init) = Fin 0
   \<and> wpm (finish_result [] result 0 session_init) = NaN
   \<and> typingTest ''a'' result 0 [anykey, CHR ''a'']
        = Some (1, finish_result ''a'' result 0 (key_event ''a'' session_init (CHR ''a'')), [])
   \<and> accuracy (finish_result ''a'' result 0 (key_event ''a'' session_init (CHR ''a''))) = Fin 100
   \<and> wpm (finish_result ''a'' result 0 (key_event ''a'' session_init (CHR ''a''))) = PInf"
proof -
  have a: "wpm (finish_result t result 0 s') = (if pos s' = 0 then NaN else PInf)" for t s'
    by (simp add: finish_result_def Let_def)
  have b: "typingTest [] result 0 [anykey] = Some (1, finish_result [] result 0 session_init, [])"
    by (simp add: typingTest_def session_eval)
  have c: "accuracy (finish_result [] result 0 session_init) = Fin 0"
    by (simp add: finish_result_def session_init_def Let_def)
  have d: "typingTest ''a'' result 0 [anykey, CHR ''a'']
        = Some (1, finish_result ''a'' result 0 (key_event ''a'' session_init (CHR ''a'')), [])"
    by (simp add: typingTest_def session_eval)
  have e: "accuracy (finish_result ''a'' result 0 (key_event ''a'' session_init (CHR ''a''))) = Fin 100"
    by (simp add: finish_result_def of_cint_def session_eval)
  have f: "pos (key_event ''a'' session_init (CHR ''a'')) = 1" "pos session_init = 0"
    by (simp_all add: session_eval)
  show ?thesis
    using b c d e f by (simp add: a)
qed

section \<open>The endurance controller\<close>

lemma fl_less_not_ge: "fl_less a b \<Longrightarrow> \<not> fl_ge a b"
  by (cases a; cases b) (simp_all add: fl_ge_def)

lemma endurance_loop_exit:
  "\<not> keep_going st \<Longrightarrow> endurance_loop env st keys = Some (st, keys)"
  by (subst endurance_loop.simps) simp

lemma endurance_loop_cancel:
  assumes "keep_going st"
    and "typingTest (round_text (env (roundsCompleted st)))
           (round_result (env (roundsCompleted st)))
           (round_elapsed (env (roundsCompleted st))) keys = Some (0, r, rest)"
  shows "endurance_loop env st keys = Some (st\<lparr>testCanceled := True\<rparr>, rest)"
proof -
  have "\<not> keep_going (st\<lparr>testCanceled := True\<rparr>)" by (simp add: keep_going_def)
  then have "endurance_loop env (st\<lparr>testCanceled := True\<rparr>) rest
               = Some (st\<lparr>testCanceled := True\<rparr>, rest)"
    by (rule endurance_loop_exit)
  then show ?thesis
    using assms by (subst endurance_loop.simps) simp
qed

lemma endurance_loop_finish:
  assumes "keep_going st"
    and "typingTest (round_text (env (roundsCompleted st)))
           (round_result (env (roundsCompleted st)))
           (round_elapsed (env (roundsCompleted st))) keys = Some (status, r, rest)"
    and "status \<noteq> 0"
  shows "endurance_loop env st keys =
           (if fl_less (accuracy r) ENDURANCE_ACCURACY_THRESHOLD
               \<or> fl_less (wpm r) ENDURANCE_WPM_THRESHOLD
            then Some (finish_round st r, rest)
            else (case rest of [] \<Rightarrow> None
                  | anykey # rest' \<Rightarrow> endurance_loop env (finish_round st r) rest'))"
proof -
  have stop: "endurance_loop env (finish_round st r) rest = Some (finish_round st r, rest)"
    if "fl_less (accuracy r) ENDURANCE_ACCURACY_THRESHOLD
        \<or> fl_less (wpm r) ENDURANCE_WPM_THRESHOLD"
  proof -
    have "\<not> keep_going (finish_round st r)"
      using that fl_less_not_ge by (auto simp: keep_going_def finish_round_def)
    then show ?thesis by (rule endurance_loop_exit)
  qed
  show ?thesis
    using assms stop by (subst endurance_loop.simps) auto
qed

lemma typingTest_status:
  "typingTest text result elapsed keys = Some (status, r, rest) \<Longrightarrow> status = 0 \<or> status = 1"
  by (auto simp: typingTest_def split: list.splits loop_exit.splits)

lemma endurance_loop_Some:
  "endurance_loop env st keys = Some (fin, rest) \<Longrightarrow>
   \<not> keep_going fin \<and> round_totals st fin"
proof (induction "length keys" arbitrary: st keys rule: less_induct)
  case less
  let ?t = "typingTest (round_text (env (roundsCompleted st)))
           (round_result (env (roundsCompleted st)))
           (round_elapsed (env (roundsCompleted st))) keys"
  show ?case
  proof (cases "keep_going st")
    case False
    with less.prems show ?thesis
      by (simp add: endurance_loop_exit round_totals_def)
  next
    case True
    show ?thesis
    proof (cases ?t)
      case None
      with True less.prems show ?thesis
        by (subst (asm) endurance_loop.simps) simp
    next
      case (Some a)
      then obtain status r rest1 where t: "?t = Some (status, r, rest1)"
        by (cases a) auto
      show ?thesis
      proof (cases "status = 0")
        case z: True
        with t have "?t = Some (0, r, rest1)" by simp
        from endurance_loop_cancel [where env=env and st=st, OF True this] less.prems
        show ?thesis by (auto simp: keep_going_def round_totals_def)
      next
        case nz: False
        note e = endurance_loop_finish [where env=env and st=st, OF True t nz]
        show ?thesis
        proof (cases "fl_less (accuracy r) ENDURANCE_ACCURACY_THRESHOLD
               \<or> fl_less (wpm r) ENDURANCE_WPM_THRESHOLD")
          case stop: True
          then have "fin = finish_round st r" using e less.prems by auto
          moreover have "\<not> keep_going (finish_round st r)"
            using stop fl_less_not_ge by (auto simp: keep_going_def finish_round_def)
          ultimately show ?thesis
            by (simp add: round_totals_def finish_round_def wordsPerRound_def)
        next
          case go: False
          with e less.prems obtain anykey rest' where
            r: "rest1 = anykey # rest'"
            and l: "endurance_loop env (finish_round st r) rest' = Some (fin, rest)"
            by (auto split: list.splits)
          have "length rest' < length keys"
            using typingTest_consumes [OF t] r by simp
          from less.hyps [OF this l]
          show ?thesis
            by (auto simp: round_totals_def finish_round_def wordsPerRound_def)
        qed
      qed
    qed
  qed
qed


lemmas endurance_eval =
  typingTest_def finish_result_def of_cint_def keep_going_def fl_ge_def finish_round_def
  wordsPerRound_def ENDURANCE_ACCURACY_THRESHOLD_def ENDURANCE_WPM_THRESHOLD_def
  endurance_start_def

lemma round1: "typingTest ''abcdefghijklmnopqrst'' junk 6 (''k'' @ ''abcdefghijklmnopqrsX'')
   = Some (1, junk\<lparr> totalChars := 20, correctChars := 19, accuracy := Fin 95, wpm := Fin 40,
                       timeTaken := Fin 6, resultText := ''abcdefghijklmnopqrst'' \<rparr>, [])"
  by (simp add: endurance_eval session_eval)

lemma round2: "typingTest ''abcdefghij'' junk 3 (''k'' @ ''abcdefghiX'')
   = Some (1, junk\<lparr> totalChars := 10, correctChars := 9, accuracy := Fin 90, wpm := Fin 40,
                       timeTaken := Fin 3, resultText := ''abcdefghij'' \<rparr>, [])"
  by (simp add: endurance_eval session_eval)

lemma round3: "typingTest ''abcde'' junk 2 (''k'' @ ''abcdX'')
   = Some (1, junk\<lparr> totalChars := 5, correctChars := 4, accuracy := Fin 80, wpm := Fin 30,
                       timeTaken := Fin 2, resultText := ''abcde'' \<rparr>, [])"
  by (simp add: endurance_eval session_eval)

lemma scripted_run:
  "endurance_loop (scripted_env junk) endurance_start scripted_keys =
     Some (\<lparr> roundsCompleted = 3, currentAccuracy = Fin 80, currentWPM = Fin 30,
              totalWordsCompleted = 30, testCanceled = False \<rparr>, [])"
  by (simp add: endurance_loop.simps scripted_env_def scripted_keys_def endurance_eval session_eval)

lemma enduranceMode_Some:
  assumes "enduranceMode env user keys = Some (user', fin)"
  shows "\<not> keep_going fin \<and> totalWordsCompleted fin = 10 * roundsCompleted fin
       \<and> 0 \<le> roundsCompleted fin
       \<and> user' = user\<lparr> enduranceHighScore := max (enduranceHighScore user) (totalWordsCompleted fin),
                         testsCompleted := testsCompleted user + roundsCompleted fin \<rparr>"
proof -
  from assms obtain rest where l: "endurance_loop env endurance_start keys = Some (fin, rest)"
    by (auto simp: enduranceMode_def Let_def split: option.splits if_splits)
  from endurance_loop_Some [OF l]
  have a: "\<not> keep_going fin" and b: "round_totals endurance_start fin" by simp_all
  have c: "totalWordsCompleted fin = 10 * roundsCompleted fin" "0 \<le> roundsCompleted fin"
    using b by (simp_all add: round_totals_def endurance_start_def)
  have d: "user' = user\<lparr> enduranceHighScore := max (enduranceHighScore user) (totalWordsCompleted fin),
                         testsCompleted := testsCompleted user + roundsCompleted fin \<rparr>"
    using assms l by (auto simp: enduranceMode_def Let_def max_def)
  show ?thesis using a c d by simp
qed

text \<open>
  C4. The endurance loop runs a round only while the current accuracy is at least 85, the
  current speed at least 30 and no round was cancelled; otherwise it leaves with its
  state. A cancelled round sets the flag and ends the loop with nothing else changed. A
  finished round takes accuracy and speed from the round's result, adds 10 words and
  one round, and the loop goes on unless one of the two figures fell below its
  threshold. When the mode returns, its loop condition is false, the word total is ten
  times the rounds completed, the endurance high score of the saved profile is the
  larger of the old one and the word total, and the tests completed grew by the rounds
  completed. In particular the scripted session of three rounds with accuracies 95, 90
  and 80 (speeds 40, 40, 30) stops after the third round with 3 rounds and 30 words.
\<close>

theorem endurance_controller:
  "keep_going st = (fl_ge (currentAccuracy st) (Fin 85) \<and> fl_ge (currentWPM st) (Fin 30)
                     \<and> \<not> testCanceled st)
   \<and> (\<not> keep_going st \<longrightarrow> endurance_loop env st keys = Some (st, keys))
   \<and> (keep_going st \<and>
        typingTest (round_text (env (roundsCompleted st))) (round_result (env (roundsCompleted st)))
          (round_elapsed (env (roundsCompleted st))) keys = Some (0, r, rest) \<longrightarrow>
        endurance_loop env st keys = Some (st\<lparr>testCanceled := True\<rparr>, rest))
   \<and> (keep_going st \<and>
        typingTest (round_text (env (roundsCompleted st))) (round_result (env (roundsCompleted st)))
          (round_elapsed (env (roundsCompleted st))) keys = Some (1, r, rest) \<longrightarrow>
        finish_round st r = st\<lparr> currentAccuracy := accuracy r, currentWPM := wpm r,
                                  totalWordsCompleted := totalWordsCompleted st + 10,
                                  roundsCompleted := roundsCompleted st + 1 \<rparr> \<and>
        endurance_loop env st keys =
          (if fl_less (accuracy r) (Fin 85) \<or> fl_less (wpm r) (Fin 30)
           then Some (finish_round st r, rest)
           else (case rest of [] \<Rightarrow> None
                 | anykey # rest' \<Rightarrow> endurance_loop env (finish_round st r) rest')))
   \<and> (enduranceMode env user keys = Some (user', fin) \<longrightarrow>
        \<not> keep_going fin \<and> totalWordsCompleted fin = 10 * roundsCompleted fin
        \<and> 0 \<le> roundsCompleted fin
        \<and> user' = user\<lparr> enduranceHighScore := max (enduranceHighScore user) (totalWordsCompleted fin),
                          testsCompleted := testsCompleted user + roundsCompleted fin \<rparr>)
   \<and> map_option (\<lambda>x. accuracy (fst (snd x)))
         (typingTest ''abcdefghijklmnopqrst'' junk 6 (''k'' @ ''abcdefghijklmnopqrsX'')) = Some (Fin 95)
   \<and> map_option (\<lambda>x. accuracy (fst (snd x)))
         (typingTest ''abcdefghij'' junk 3 (''k'' @ ''abcdefghiX'')) = Some (Fin 90)
   \<and> map_option (\<lambda>x. accuracy (fst (snd x)))
         (typingTest ''abcde'' junk 2 (''k'' @ ''abcdX'')) = Some (Fin 80)
   \<and> enduranceMode (scripted_env junk) user scripted_keys =
        Some (user\<lparr> enduranceHighScore := max (enduranceHighScore user) 30,
                    testsCompleted := testsCompleted user + 3 \<rparr>,
              \<lparr> roundsCompleted = 3, currentAccuracy = Fin 80, currentWPM = Fin 30,
                totalWordsCompleted = 30, testCanceled = False \<rparr>)"
proof (intro conjI impI)
  show "keep_going st = (fl_ge (currentAccuracy st) (Fin 85) \<and> fl_ge (currentWPM st) (Fin 30)
                     \<and> \<not> testCanceled st)"
    by (simp add: keep_going_def ENDURANCE_ACCURACY_THRESHOLD_def ENDURANCE_WPM_THRESHOLD_def)
next
  assume "\<not> keep_going st"
  then show "endurance_loop env st keys = Some (st, keys)" by (rule endurance_loop_exit)
next
  assume a: "keep_going st \<and>
        typingTest (round_text (env (roundsCompleted st))) (round_result (env (roundsCompleted st)))
          (round_elapsed (env (roundsCompleted st))) keys = Some (0, r, rest)"
  show "endurance_loop env st keys = Some (st\<lparr>testCanceled := True\<rparr>, rest)"
    by (rule endurance_loop_cancel [where env=env and st=st]) (use a in simp_all)
next
  show "finish_round st r = st\<lparr> currentAccuracy := accuracy r, currentWPM := wpm r,
                                  totalWordsCompleted := totalWordsCompleted st + 10,
                                  roundsCompleted := roundsCompleted st + 1 \<rparr>"
    by (simp add: finish_round_def wordsPerRound_def)
next
  assume a: "keep_going st \<and>
        typingTest (round_text (env (roundsCompleted st))) (round_result (env (roundsCompleted st)))
          (round_elapsed (env (roundsCompleted st))) keys = Some (1, r, rest)"
  have k: "keep_going st" and t: "typingTest (round_text (env (roundsCompleted st))) (round_result (env (roundsCompleted st)))
          (round_elapsed (env (roundsCompleted st))) keys = Some (1, r, rest)" and o: "(1::int) \<noteq> 0"
    using a by simp_all
  show "endurance_loop env st keys =
          (if fl_less (accuracy r) (Fin 85) \<or> fl_less (wpm r) (Fin 30)
           then Some (finish_round st r, rest)
           else (case rest of [] \<Rightarrow> None
                 | anykey # rest' \<Rightarrow> endurance_loop env (finish_round st r) rest'))"
    using endurance_loop_finish [where env=env and st=st, OF k t o]
    by (simp add: ENDURANCE_ACCURACY_THRESHOLD_def ENDURANCE_WPM_THRESHOLD_def)
next
  assume e: "enduranceMode env user keys = Some (user', fin)"
  note s = enduranceMode_Some [OF e]
  show "\<not> keep_going fin" using s by simp
  show "totalWordsCompleted fin = 10 * roundsCompleted fin" using s by simp
  show "0 \<le> roundsCompleted fin" using s by simp
  show "user' = user\<lparr> enduranceHighScore := max (enduranceHighScore user) (totalWordsCompleted fin),
                          testsCompleted := testsCompleted user + roundsCompleted fin \<rparr>"
    using s by simp
next
  show "map_option (\<lambda>x. accuracy (fst (snd x)))
         (typingTest ''abcdefghijklmnopqrst'' junk 6 (''k'' @ ''abcdefghijklmnopqrsX'')) = Some (Fin 95)"
    using round1 [of junk] by simp
  show "map_option (\<lambda>x. accuracy (fst (snd x)))
         (typingTest ''abcdefghij'' junk 3 (''k'' @ ''abcdefghiX'')) = Some (Fin 90)"
    using round2 [of junk] by simp
  show "map_option (\<lambda>x. accuracy (fst (snd x)))
         (typingTest ''abcde'' junk 2 (''k'' @ ''abcdX'')) = Some (Fin 80)"
    using round3 [of junk] by simp
  show "enduranceMode (scripted_env junk) user scripted_keys =
        Some (user\<lparr> enduranceHighScore := max (enduranceHighScore user) 30,
                    testsCompleted := testsCompleted user + 3 \<rparr>,
              \<lparr> roundsCompleted = 3, currentAccuracy = Fin 80, currentWPM = Fin 30,
                totalWordsCompleted = 30, testCanceled = False \<rparr>)"
    by (auto simp: enduranceMode_def scripted_run Let_def max_def)
qed


theorem endurance_controller_witness:
  "enduranceMode (scripted_env sample_result) sample_user scripted_keys =
     Some (sample_user\<lparr> enduranceHighScore := 30, testsCompleted := 7 \<rparr>,
           \<lparr> roundsCompleted = 3, currentAccuracy = Fin 80, currentWPM = Fin 30,
             totalWordsCompleted = 30, testCanceled = False \<rparr>)
   \<and> \<not> keep_going \<lparr> roundsCompleted = 3, currentAccuracy = Fin 80, currentWPM = Fin 30,
             totalWordsCompleted = 30, testCanceled = False \<rparr>
   \<and> endurance_loop (scripted_env sample_result) (endurance_start\<lparr>testCanceled := True\<rparr>) ''k''
        = Some (endurance_start\<lparr>testCanceled := True\<rparr>, ''k'')
   \<and> keep_going endurance_start
   \<and> typingTest ''abcdefghijklmnopqrst'' sample_result 6 [CHR ''k'', ESC]
        = Some (0, sample_result, [])
   \<and> endurance_loop (scripted_env sample_result) endurance_start [CHR ''k'', ESC]
        = Some (endurance_start\<lparr>testCanceled := True\<rparr>, [])
   \<and> keep_going \<lparr> roundsCompleted = 2, currentAccuracy = Fin 90, currentWPM = Fin 40,
             totalWordsCompleted = 20, testCanceled = False \<rparr>
   \<and> endurance_loop (scripted_env sample_result)
         \<lparr> roundsCompleted = 2, currentAccuracy = Fin 90, currentWPM = Fin 40,
           totalWordsCompleted = 20, testCanceled = False \<rparr> (''k'' @ ''abcdX'')
        = Some (\<lparr> roundsCompleted = 3, currentAccuracy = Fin 80, currentWPM = Fin 30,
                  totalWordsCompleted = 30, testCanceled = False \<rparr>, [])"
proof -
  let ?env = "scripted_env sample_result"
  let ?fin = "\<lparr> roundsCompleted = 3, currentAccuracy = Fin 80, currentWPM = Fin 30,
             totalWordsCompleted = 30, testCanceled = False \<rparr>"
  let ?st2 = "\<lparr> roundsCompleted = 2, currentAccuracy = Fin 90, currentWPM = Fin 40,
             totalWordsCompleted = 20, testCanceled = False \<rparr>"
  let ?r3 = "sample_result\<lparr> totalChars := 5, correctChars := 4, accuracy := Fin 80, wpm := Fin 30,
                       timeTaken := Fin 2, resultText := ''abcde'' \<rparr>"
  let ?u = "sample_user\<lparr> enduranceHighScore := 30, testsCompleted := 7 \<rparr>"
  note full = endurance_controller [where junk = sample_result and user = sample_user
        and env = ?env and user' = ?u and fin = ?fin]
  have run: "enduranceMode ?env sample_user scripted_keys = Some (?u, ?fin)"
    using full [where st = endurance_start and keys = scripted_keys and r = sample_result
        and rest = "[]"]
    by (simp add: sample_user_def)
  have stopped: "\<not> keep_going ?fin"
    using full [where st = endurance_start and keys = scripted_keys and r = sample_result
        and rest = "[]"] run
    by blast
  have nk: "\<not> keep_going (endurance_start\<lparr>testCanceled := True\<rparr>)"
    by (simp add: keep_going_def)
  have ex: "endurance_loop ?env (endurance_start\<lparr>testCanceled := True\<rparr>) ''k''
        = Some (endurance_start\<lparr>testCanceled := True\<rparr>, ''k'')"
    using full [where st = "endurance_start\<lparr>testCanceled := True\<rparr>" and keys = "''k''"
        and r = sample_result and rest = "[]"] nk
    by blast
  have k0: "keep_going endurance_start"
    by (simp add: endurance_eval)
  have c: "typingTest (round_text (?env (roundsCompleted endurance_start)))
             (round_result (?env (roundsCompleted endurance_start)))
             (round_elapsed (?env (roundsCompleted endurance_start))) [CHR ''k'', ESC]
           = Some (0, sample_result, [])"
    by (simp add: scripted_env_def endurance_eval session_eval)
  have c': "typingTest ''abcdefghijklmnopqrst'' sample_result 6 [CHR ''k'', ESC]
        = Some (0, sample_result, [])"
    using c by (simp add: scripted_env_def endurance_start_def)
  have cancel: "endurance_loop ?env endurance_start [CHR ''k'', ESC]
        = Some (endurance_start\<lparr>testCanceled := True\<rparr>, [])"
    using full [where st = endurance_start and keys = "[CHR ''k'', ESC]" and r = sample_result
        and rest = "[]"] k0 c
    by blast
  have k2: "keep_going ?st2"
    by (simp add: endurance_eval)
  have t3: "typingTest (round_text (?env (roundsCompleted ?st2)))
             (round_result (?env (roundsCompleted ?st2)))
             (round_elapsed (?env (roundsCompleted ?st2))) (''k'' @ ''abcdX'')
           = Some (1, ?r3, [])"
    by (simp add: scripted_env_def endurance_eval session_eval)
  have last3: "finish_round ?st2 ?r3 = ?fin"
    by (simp add: finish_round_def wordsPerRound_def)
  have "endurance_loop ?env ?st2 (''k'' @ ''abcdX'') =
          (if fl_less (accuracy ?r3) (Fin 85) \<or> fl_less (wpm ?r3) (Fin 30)
           then Some (finish_round ?st2 ?r3, [])
           else (case [] of [] \<Rightarrow> None
                 | anykey # rest' \<Rightarrow> endurance_loop ?env (finish_round ?st2 ?r3) rest'))"
    using full [where st = ?st2 and keys = "''k'' @ ''abcdX''" and r = ?r3 and rest = "[]"] k2 t3
    by blast
  then have last: "endurance_loop ?env ?st2 (''k'' @ ''abcdX'') = Some (?fin, [])"
    by (simp add: last3)
  show ?thesis
    using run stopped ex k0 c' cancel k2 last by simp
qed

section \<open>Cancelled sessions and the profile\<close>

lemma processTypingResults_one_tests:
  "testsCompleted (processTypingResults [r] user) = testsCompleted user + 1"
  by (simp add: processTypingResults_def add_result_def Let_def split: prod.splits)

lemma processTypingResults_one_chars:
  "totalCharsTyped (processTypingResults [r] user) = totalCharsTyped user + totalChars r"
  by (simp add: processTypingResults_def add_result_def Let_def split: prod.splits)

lemma enduranceMode_first_round_cancelled:
  "enduranceMode (scripted_env result) user [anykey, ESC]
     = Some (user\<lparr> enduranceHighScore := max (enduranceHighScore user) 0 \<rparr>,
             endurance_start\<lparr> testCanceled := True \<rparr>)"
proof -
  have k0: "keep_going endurance_start"
    by (simp add: endurance_eval)
  have c: "typingTest (round_text (scripted_env result (roundsCompleted endurance_start)))
             (round_result (scripted_env result (roundsCompleted endurance_start)))
             (round_elapsed (scripted_env result (roundsCompleted endurance_start))) [anykey, ESC]
           = Some (0, result, [])"
    by (simp add: scripted_env_def endurance_eval session_eval)
  have l: "endurance_loop (scripted_env result) endurance_start [anykey, ESC]
             = Some (endurance_start\<lparr> testCanceled := True \<rparr>, [])"
    by (rule endurance_loop_cancel [where env = "scripted_env result", OF k0 c])
  show ?thesis
    unfolding enduranceMode_def l
    by (auto simp: Let_def max_def endurance_start_def)
qed

text \<open>
  C1. The claim asks that a cancelled session leave the profile as it was. In
  \<^verbatim>\<open>rawSpeedMode\<close> it does not: on the target \<open>ab\<close>, a key to start and then ESC,
  \<^verbatim>\<open>typingTest\<close> returns 0 and leaves the result struct as it found it, and
  \<^verbatim>\<open>rawSpeedMode\<close> still passes that struct to \<^verbatim>\<open>processTypingResults\<close>, which counts one
  more completed test and adds the struct's character count to the profile. The other
  caller, \<^verbatim>\<open>enduranceMode\<close>, tests the status: the same cancellation in its first round
  leaves the tests completed as they were.
\<close>

theorem rawSpeedMode_counts_cancelled_test:
  "typingTest ''ab'' result elapsed [anykey, ESC] = Some (0, result, [])
   \<and> rawSpeedMode ''ab'' result elapsed [anykey, ESC] user
        = Some (processTypingResults [result] user)
   \<and> testsCompleted (processTypingResults [result] user) = testsCompleted user + 1
   \<and> totalCharsTyped (processTypingResults [result] user)
        = totalCharsTyped user + totalChars result
   \<and> testsCompleted (processTypingResults [result] user) \<noteq> testsCompleted user
   \<and> map_option (\<lambda>x. testsCompleted (fst x))
         (enduranceMode (scripted_env result) user [anykey, ESC]) = Some (testsCompleted user)"
proof -
  have a: "typingTest ''ab'' result elapsed [anykey, ESC] = Some (0, result, [])"
    by (simp add: typingTest_def session_eval)
  show ?thesis
    by (simp add: a rawSpeedMode_def processTypingResults_one_tests processTypingResults_one_chars
          enduranceMode_first_round_cancelled)
qed

end
